theory Spec2Isabelle
  imports Main "HOL-Library.AList" "HOL-Library.Sublist" "HOL-Library.Char_ord"
    "HOL-Library.List_Lexorder" "HOL-Library.Product_Lexorder"
begin

section \<open>Values shared by both routers\<close>

text \<open>
  Addresses are Python strings, ports and link costs are Python integers. A Python
  \<open>dict\<close> is an association list in insertion order: \<open>d[k] = v\<close> is
  \<open>AList.update k v d\<close> (an existing key keeps its position, a new key goes to the end),
  \<open>del d[k]\<close> is \<open>AList.delete k d\<close>, \<open>d[k]\<close> and \<open>k in d\<close> read \<open>map_of d k\<close>,
  and \<open>d.items()\<close> is the list itself.
\<close>

type_synonym addr = string
type_synonym port = int

text \<open>
  What \<open>json.loads\<close> returns. JSON \<open>true\<close> and \<open>false\<close> are Python's \<open>True\<close> and
  \<open>False\<close>, which every comparison and sum of these routers treats as the integers 1
  and 0: they are \<open>JNum 1\<close> and \<open>JNum 0\<close> here. Numbers are integers (a JSON number
  with a fraction is outside the model). The keys of a \<open>JObj\<close> are pairwise distinct,
  as the keys of a Python \<open>dict\<close> are.
\<close>

datatype json = JNull | JNum int | JStr string | JArr "json list" | JObj "(string \<times> json) list"

datatype pyerror = KeyError | TypeError | AttributeError | JSONDecodeError

text \<open>
  The content of a packet is a Python string. \<open>Encoded j\<close> is a string that
  \<open>json.loads\<close> decodes to \<open>j\<close> (what \<open>json.dumps(j)\<close> writes); \<open>Unparseable t\<close> is a
  string \<open>t\<close> on which \<open>json.loads\<close> raises.
\<close>

datatype content = Encoded json | Unparseable string

datatype kind = TRACEROUTE | ROUTING

text \<open>
  Modelled from the spec: the class \<open>Packet\<close> of \<open>packet.py\<close> is not among the sources.
  A packet has a kind (routing or traceroute/data), a source and a destination address
  and a content; \<open>Packet(kind, src, dst, content)\<close> builds one and \<open>is_traceroute\<close>
  tests the kind.
\<close>

record packet =
  kind :: kind
  src_addr :: addr
  dst_addr :: addr
  content :: content

definition is_traceroute :: "packet \<Rightarrow> bool" where
  "is_traceroute pkt = (kind pkt = TRACEROUTE)"

text \<open>
  Modelled from the spec: the base class \<open>Router\<close> of \<open>router.py\<close> is not among the
  sources. Its \<open>send(port, packet)\<close> hands a packet to the simulator; a handler's sends are
  the list of \<open>(port, packet)\<close> pairs it returns, in the order of the calls. The fields
  are the ones both \<open>__init__\<close> methods set.
\<close>

record Router =
  addr :: addr
  heartbeat_time :: int
  last_sent :: int
  neighbors :: "(port \<times> (addr \<times> int)) list"
  forwarding_table :: "(addr \<times> port) list"

type_synonym sends = "(port \<times> packet) list"

text \<open>The traceroute branch of \<open>handle_packet\<close>, the same code in both routers.\<close>

fun first_port_to :: "(port \<times> (addr \<times> int)) list \<Rightarrow> addr \<Rightarrow> port option" where
  "first_port_to [] dst = None"
| "first_port_to ((p, (neighbor, c)) # rest) dst =
     (if neighbor = dst then Some p else first_port_to rest dst)"

definition relay :: "'a Router_scheme \<Rightarrow> packet \<Rightarrow> sends" where
  "relay s pkt =
     (case map_of (forwarding_table s) (dst_addr pkt) of
        Some out_port \<Rightarrow> [(out_port, pkt)]
      | None \<Rightarrow>
          (case first_port_to (neighbors s) (dst_addr pkt) of
             Some p \<Rightarrow> [(p, pkt)]
           | None \<Rightarrow> []))"

subsection \<open>Python's operators on decoded JSON\<close>

text \<open>\<open>k in x\<close> for a string \<open>k\<close>: key of a dict, element of a list, substring of a string.\<close>

fun py_contains :: "json \<Rightarrow> string \<Rightarrow> pyerror + bool" where
  "py_contains (JObj kv) k = Inr (map_of kv k \<noteq> None)"
| "py_contains (JArr xs) k = Inr (JStr k \<in> set xs)"
| "py_contains (JStr t) k = Inr (sublist k t)"
| "py_contains (JNum n) k = Inl TypeError"
| "py_contains JNull k = Inl TypeError"

text \<open>\<open>x[k]\<close> for a string \<open>k\<close>.\<close>

fun py_getitem :: "json \<Rightarrow> string \<Rightarrow> pyerror + json" where
  "py_getitem (JObj kv) k = (case map_of kv k of Some v \<Rightarrow> Inr v | None \<Rightarrow> Inl KeyError)"
| "py_getitem j k = Inl TypeError"

text \<open>
  \<open>x == y\<close>: lists are equal element by element, dicts when they have the same keys
  with equal values, whatever the order of insertion.
\<close>

fun py_eq :: "json \<Rightarrow> json \<Rightarrow> bool" where
  "py_eq JNull JNull = True"
| "py_eq (JNum a) (JNum b) = (a = b)"
| "py_eq (JStr a) (JStr b) = (a = b)"
| "py_eq (JArr xs) (JArr ys) = list_all2 py_eq xs ys"
| "py_eq (JObj a) (JObj b) =
     (length a = length b \<and>
      list_all (\<lambda>kv. case map_of b (fst kv) of None \<Rightarrow> False | Some w \<Rightarrow> py_eq (snd kv) w) a)"
| "py_eq x y = False"

section \<open>The distance vector router\<close>

record DVrouter = Router +
  dv :: "(addr \<times> (int \<times> port option)) list"
  neighbor_dvs :: "(addr \<times> json) list"

definition dv_init :: "addr \<Rightarrow> int \<Rightarrow> DVrouter" where
  "dv_init a hb =
     \<lparr>addr = a, heartbeat_time = hb, last_sent = 0, neighbors = [], forwarding_table = [],
      dv = [(a, (0, None))], neighbor_dvs = []\<rparr>"

subsection \<open>Recomputation\<close>

text \<open>
  The first loop of \<open>update_distance_vector\<close>: the keys of every stored vector.
  \<open>neighbor_dv.keys()\<close> raises \<open>AttributeError\<close> on anything but a dict.
\<close>

fun vector_keys :: "(addr \<times> json) list \<Rightarrow> pyerror + addr list" where
  "vector_keys [] = Inr []"
| "vector_keys ((n, JObj kv) # rest) =
     (case vector_keys rest of Inl e \<Rightarrow> Inl e | Inr ks \<Rightarrow> Inr (map fst kv @ ks))"
| "vector_keys ((n, j) # rest) = Inl AttributeError"

text \<open>
  \<open>best_cost\<close> and \<open>best_port\<close> are assigned together: \<open>None\<close> is the pair
  \<open>(float('inf'), None)\<close>, \<open>Some (c, p)\<close> the pair \<open>(c, p)\<close>.
\<close>

definition lt_best :: "int \<Rightarrow> (int \<times> port) option \<Rightarrow> bool" where
  "lt_best c best = (case best of None \<Rightarrow> True | Some (best_cost, best_port) \<Rightarrow> c < best_cost)"

text \<open>The loop "check direct neighbors first".\<close>

fun direct_best ::
  "(port \<times> (addr \<times> int)) list \<Rightarrow> addr \<Rightarrow> (int \<times> port) option \<Rightarrow> (int \<times> port) option" where
  "direct_best [] dest best = best"
| "direct_best ((port, (endpoint, cost)) # rest) dest best =
     direct_best rest dest
       (if endpoint = dest \<and> lt_best cost best then Some (cost, port) else best)"

text \<open>
  The loop "then check paths through neighbors". \<open>neighbor_cost >= 16\<close> raises
  \<open>TypeError\<close> unless the advertised cost is a number.
\<close>

fun via_best ::
  "(addr \<times> json) list \<Rightarrow> (port \<times> (addr \<times> int)) list \<Rightarrow> addr \<Rightarrow> (int \<times> port) option
     \<Rightarrow> pyerror + (int \<times> port) option" where
  "via_best ndvs [] dest best = Inr best"
| "via_best ndvs ((port, (neighbor, direct_cost)) # rest) dest best =
     (case map_of ndvs neighbor of
        None \<Rightarrow> via_best ndvs rest dest best
      | Some vec \<Rightarrow>
          (case py_contains vec dest of
             Inl e \<Rightarrow> Inl e
           | Inr False \<Rightarrow> via_best ndvs rest dest best
           | Inr True \<Rightarrow>
               (case py_getitem vec dest of
                  Inl e \<Rightarrow> Inl e
                | Inr (JNum neighbor_cost) \<Rightarrow>
                    (if neighbor_cost \<ge> 16 then via_best ndvs rest dest best
                     else let total_cost = direct_cost + neighbor_cost in
                       if lt_best total_cost best \<and> total_cost < 16
                       then via_best ndvs rest dest (Some (total_cost, port))
                       else via_best ndvs rest dest best)
                | Inr j \<Rightarrow> Inl TypeError)))"

text \<open>
  The loop over \<open>all_destinations\<close>, with the flag \<open>updated\<close>. An exception leaves the
  router as the destinations before it have made it.
\<close>

fun update_dests :: "addr list \<Rightarrow> DVrouter \<Rightarrow> bool \<Rightarrow> DVrouter \<times> (pyerror + bool)" where
  "update_dests [] s updated = (s, Inr updated)"
| "update_dests (dest # rest) s updated =
     (if dest = addr s then update_dests rest s updated
      else
        (case via_best (neighbor_dvs s) (neighbors s) dest (direct_best (neighbors s) dest None) of
           Inl e \<Rightarrow> (s, Inl e)
         | Inr (Some (best_cost, best_port)) \<Rightarrow>
             (if (case map_of (dv s) dest of None \<Rightarrow> True | Some (c, p) \<Rightarrow> c > best_cost)
              then update_dests rest
                     (s\<lparr>dv := AList.update dest (best_cost, Some best_port) (dv s),
                        forwarding_table := AList.update dest best_port (forwarding_table s)\<rparr>)
                     True
              else update_dests rest s updated)
         | Inr None \<Rightarrow>
             (if map_of (dv s) dest \<noteq> None
              then update_dests rest
                     (s\<lparr>dv := AList.delete dest (dv s),
                        forwarding_table := AList.delete dest (forwarding_table s)\<rparr>)
                     True
              else update_dests rest s updated)))"

text \<open>
  \<open>all_destinations\<close> is a Python set of strings. \<open>all_destinations\<close> lists its elements,
  each once. The order in which \<open>for dest in all_destinations\<close> visits them depends on the
  hashes of the strings, which Python salts anew in every process: like the wall clock of
  the link state router it is an input of the recomputation that is neither the router
  nor an argument. \<open>hash_order\<close> is that input: the iteration order of a set, given as the
  function that takes the list of the elements to the list in which they are visited.
\<close>

type_synonym set_order = "addr list \<Rightarrow> addr list"

definition set_iteration :: "set_order \<Rightarrow> bool" where
  "set_iteration hash_order \<longleftrightarrow>
     (\<forall>ds. set (hash_order ds) = set ds \<and> length (hash_order ds) = length ds)"

definition all_destinations :: "DVrouter \<Rightarrow> pyerror + addr list" where
  "all_destinations s =
     (case vector_keys (neighbor_dvs s) of
        Inl e \<Rightarrow> Inl e
      | Inr ks \<Rightarrow> Inr (remdups (ks @ map (\<lambda>(port, (endpoint, cost)). endpoint) (neighbors s))))"

definition update_distance_vector :: "DVrouter \<Rightarrow> set_order \<Rightarrow> DVrouter \<times> (pyerror + bool)" where
  "update_distance_vector s hash_order =
     (case all_destinations s of
        Inl e \<Rightarrow> (s, Inl e)
      | Inr dests \<Rightarrow> update_dests (hash_order dests) s False)"

subsection \<open>Broadcast with split horizon and poison reverse\<close>

definition simplified_dv :: "DVrouter \<Rightarrow> port \<Rightarrow> (addr \<times> int) list" where
  "simplified_dv s port =
     fold (\<lambda>(dest, (cost, out_port)) sd.
             AList.update dest (if out_port = Some port then 16 else cost) sd)
          (dv s) [(addr s, 0)]"

definition dumps_vector :: "(addr \<times> int) list \<Rightarrow> content" where
  "dumps_vector sd = Encoded (JObj (map (\<lambda>(dest, cost). (dest, JNum cost)) sd))"

definition send_dv_to_neighbor :: "DVrouter \<Rightarrow> port \<Rightarrow> sends" where
  "send_dv_to_neighbor s port =
     (case map_of (neighbors s) port of
        Some (neighbor, c) \<Rightarrow>
          [(port, \<lparr>kind = ROUTING, src_addr = addr s, dst_addr = neighbor,
                   content = dumps_vector (simplified_dv s port)\<rparr>)]
      | None \<Rightarrow> [])"

definition broadcast_dv :: "DVrouter \<Rightarrow> DVrouter \<times> sends" where
  "broadcast_dv s =
     (let s' = s\<lparr>dv := AList.update (addr s) (0, None) (dv s)\<rparr>
      in (s', concat (map (send_dv_to_neighbor s') (map fst (neighbors s')))))"

subsection \<open>The four event handlers\<close>

text \<open>
  A handler returns the router after it, the packets it sent, and the exception it
  raised to the simulator, if any.
\<close>

text \<open>The loop of \<open>handle_packet\<close> that compares the received vector with the stored one.\<close>

fun dv_differs :: "json \<Rightarrow> (string \<times> json) list \<Rightarrow> pyerror + bool" where
  "dv_differs old_dv [] = Inr False"
| "dv_differs old_dv ((dest, cost) # rest) =
     (case py_contains old_dv dest of
        Inl e \<Rightarrow> Inl e
      | Inr False \<Rightarrow> Inr True
      | Inr True \<Rightarrow>
          (case py_getitem old_dv dest of
             Inl e \<Rightarrow> Inl e
           | Inr v \<Rightarrow> if \<not> py_eq v cost then Inr True else dv_differs old_dv rest))"

definition dv_changed :: "DVrouter \<Rightarrow> addr \<Rightarrow> json \<Rightarrow> pyerror + bool" where
  "dv_changed s neighbor_addr received_dv =
     (case map_of (neighbor_dvs s) neighbor_addr of
        None \<Rightarrow> Inr True
      | Some old_dv \<Rightarrow>
          (case received_dv of
             JObj its \<Rightarrow> dv_differs old_dv its
           | _ \<Rightarrow> Inl AttributeError))"

definition dv_handle_packet ::
  "DVrouter \<Rightarrow> port \<Rightarrow> packet \<Rightarrow> set_order \<Rightarrow> DVrouter \<times> sends \<times> pyerror option" where
  "dv_handle_packet s port pkt hash_order =
     (if is_traceroute pkt then (s, relay s pkt, None)
      else
        (case map_of (neighbors s) port of
           None \<Rightarrow> (s, [], None)
         | Some (neighbor_addr, c) \<Rightarrow>
             (case content pkt of
                Unparseable t \<Rightarrow> (s, [], None)
              | Encoded received_dv \<Rightarrow>
                  (case dv_changed s neighbor_addr received_dv of
                     Inl e \<Rightarrow> (s, [], None)
                   | Inr changed \<Rightarrow>
                       (let s1 = s\<lparr>neighbor_dvs :=
                                     AList.update neighbor_addr received_dv (neighbor_dvs s)\<rparr>
                        in if changed
                           then (case update_distance_vector s1 hash_order of
                                   (s2, Inl e) \<Rightarrow> (s2, [], None)
                                 | (s2, Inr True) \<Rightarrow>
                                     (case broadcast_dv s2 of (s3, out) \<Rightarrow> (s3, out, None))
                                 | (s2, Inr False) \<Rightarrow> (s2, [], None))
                           else (s1, [], None))))))"

definition dv_handle_new_link ::
  "DVrouter \<Rightarrow> port \<Rightarrow> addr \<Rightarrow> int \<Rightarrow> set_order \<Rightarrow> DVrouter \<times> sends \<times> pyerror option" where
  "dv_handle_new_link s port endpoint cost hash_order =
     (let s1 = s\<lparr>neighbors := AList.update port (endpoint, cost) (neighbors s)\<rparr>;
          s2 = (if (case map_of (dv s1) endpoint of None \<Rightarrow> True | Some (c, p) \<Rightarrow> c > cost)
                then s1\<lparr>dv := AList.update endpoint (cost, Some port) (dv s1),
                        forwarding_table := AList.update endpoint port (forwarding_table s1)\<rparr>
                else s1)
      in case update_distance_vector s2 hash_order of
           (s3, Inl e) \<Rightarrow> (s3, [], Some e)
         | (s3, Inr updated) \<Rightarrow>
             (case broadcast_dv s3 of
                (s4, out) \<Rightarrow> (s4, out @ send_dv_to_neighbor s4 port, None)))"

text \<open>The two loops of \<open>handle_remove_link\<close> that drop the routes through the port.\<close>

definition routes_to_update :: "DVrouter \<Rightarrow> port \<Rightarrow> addr list" where
  "routes_to_update s port =
     map fst (filter (\<lambda>(dest, (cost, out_port)). out_port = Some port) (dv s))"

definition remove_routes :: "addr list \<Rightarrow> DVrouter \<Rightarrow> DVrouter" where
  "remove_routes dests s =
     fold (\<lambda>dest s. s\<lparr>dv := AList.delete dest (dv s),
                       forwarding_table := AList.delete dest (forwarding_table s)\<rparr>)
          dests s"

definition dv_handle_remove_link ::
  "DVrouter \<Rightarrow> port \<Rightarrow> set_order \<Rightarrow> DVrouter \<times> sends \<times> pyerror option" where
  "dv_handle_remove_link s port hash_order =
     (case map_of (neighbors s) port of
        None \<Rightarrow> (s, [], None)
      | Some (neighbor_addr, c) \<Rightarrow>
          (let s1 = s\<lparr>neighbors := AList.delete port (neighbors s),
                      neighbor_dvs := AList.delete neighbor_addr (neighbor_dvs s)\<rparr>;
               s2 = remove_routes (routes_to_update s1 port) s1
           in case update_distance_vector s2 hash_order of
                (s3, Inl e) \<Rightarrow> (s3, [], Some e)
              | (s3, Inr updated) \<Rightarrow>
                  (case broadcast_dv s3 of (s4, out) \<Rightarrow> (s4, out, None))))"

definition dv_handle_time ::
  "DVrouter \<Rightarrow> int \<Rightarrow> set_order \<Rightarrow> DVrouter \<times> sends \<times> pyerror option" where
  "dv_handle_time s time_ms hash_order =
     (if time_ms - last_sent s \<ge> heartbeat_time s
      then (case update_distance_vector s hash_order of
              (s1, Inl e) \<Rightarrow> (s1, [], Some e)
            | (s1, Inr updated) \<Rightarrow>
                (case broadcast_dv s1 of (s2, out) \<Rightarrow> (s2\<lparr>last_sent := time_ms\<rparr>, out, None)))
      else (s, [], None))"

section \<open>The link state router\<close>

text \<open>
  The keys of \<open>ls_db\<close> and \<open>seq_nums\<close> are this router's address and whatever a packet
  carried under \<open>"router"\<close>; the sequence numbers and adjacency lists are stored as
  decoded. A string \<open>a\<close> used as a key is \<open>JStr a\<close>.
\<close>

record LSrouter = Router +
  ls_db :: "(json \<times> json) list"
  seq_nums :: "(json \<times> json) list"
  packet_history :: "(json \<times> json) set"

definition ls_init :: "addr \<Rightarrow> int \<Rightarrow> LSrouter" where
  "ls_init a hb =
     \<lparr>addr = a, heartbeat_time = hb, last_sent = 0, neighbors = [], forwarding_table = [],
      ls_db = [(JStr a, JObj [])], seq_nums = [(JStr a, JNum 0)], packet_history = {}\<rparr>"

subsection \<open>Dijkstra\<close>

text \<open>
  The local variables of \<open>calculate_forwarding_table\<close>. \<open>predecessors\<close> is written and
  never read, and is left out. \<open>pq\<close> is a \<open>heapq\<close>: a list of pairs \<open>(dist, node)\<close> of
  which \<open>heappop\<close> removes and returns the least, pairs compared by distance and then
  by the node's name; the layout of the heap in the list never shows.
\<close>

record dijkstra =
  distances :: "(addr \<times> int) list"
  first_hops :: "(addr \<times> port) list"
  pq :: "(int \<times> addr) list"

definition heappush :: "(int \<times> addr) list \<Rightarrow> int \<times> addr \<Rightarrow> (int \<times> addr) list" where
  "heappush q x = x # q"

definition heappop :: "(int \<times> addr) list \<Rightarrow> (int \<times> addr) \<times> (int \<times> addr) list" where
  "heappop q = (let m = Min (set q) in (m, remove1 m q))"

text \<open>
  The loop over \<open>self.neighbors\<close> that looks for the port of a neighbor of this router:
  the last port that leads to it, if any.
\<close>

definition port_of_neighbor :: "(port \<times> (addr \<times> int)) list \<Rightarrow> addr \<Rightarrow> port option" where
  "port_of_neighbor nbrs neighbor =
     fold (\<lambda>(port, (endpoint, c)) r. if endpoint = neighbor then Some port else r) nbrs None"

definition set_first_hop ::
  "addr \<Rightarrow> (port \<times> (addr \<times> int)) list \<Rightarrow> addr \<Rightarrow> addr \<Rightarrow> (addr \<times> port) list
     \<Rightarrow> (addr \<times> port) list" where
  "set_first_hop self nbrs current neighbor fh =
     (if current = self
      then (case port_of_neighbor nbrs neighbor of
              Some port \<Rightarrow> AList.update neighbor port fh
            | None \<Rightarrow> fh)
      else (case map_of fh current of
              Some port \<Rightarrow> AList.update neighbor port fh
            | None \<Rightarrow> fh))"

text \<open>
  The loop over the edges of \<open>current\<close>. \<open>dist + cost\<close> raises \<open>TypeError\<close> unless the
  cost is a number.
\<close>

fun relax ::
  "addr \<Rightarrow> (port \<times> (addr \<times> int)) list \<Rightarrow> addr \<Rightarrow> int \<Rightarrow> (string \<times> json) list \<Rightarrow> dijkstra
     \<Rightarrow> pyerror + dijkstra" where
  "relax self nbrs current dist [] st = Inr st"
| "relax self nbrs current dist ((neighbor, JNum cost) # rest) st =
     (let new_dist = dist + cost in
        if (case map_of (distances st) neighbor of None \<Rightarrow> True | Some d \<Rightarrow> new_dist < d)
        then relax self nbrs current dist rest
               \<lparr>distances = AList.update neighbor new_dist (distances st),
                first_hops = set_first_hop self nbrs current neighbor (first_hops st),
                pq = heappush (pq st) (new_dist, neighbor)\<rparr>
        else relax self nbrs current dist rest st)"
| "relax self nbrs current dist ((neighbor, j) # rest) st = Inl TypeError"

text \<open>
  One turn of the \<open>while pq\<close> loop: pop the least pair, skip it if it is stale, and
  otherwise relax the edges \<open>ls_db\<close> lists for the node. \<open>.items()\<close> raises
  \<open>AttributeError\<close> on anything but a dict.
\<close>

definition dijkstra_step ::
  "addr \<Rightarrow> (port \<times> (addr \<times> int)) list \<Rightarrow> (json \<times> json) list \<Rightarrow> dijkstra
     \<Rightarrow> pyerror + dijkstra" where
  "dijkstra_step self nbrs db st =
     (case heappop (pq st) of
        ((dist, current), q) \<Rightarrow>
          (if (case map_of (distances st) current of None \<Rightarrow> False | Some d \<Rightarrow> dist > d)
           then Inr (st\<lparr>pq := q\<rparr>)
           else
             (case map_of db (JStr current) of
                None \<Rightarrow> Inr (st\<lparr>pq := q\<rparr>)
              | Some (JObj edges) \<Rightarrow> relax self nbrs current dist edges (st\<lparr>pq := q\<rparr>)
              | Some j \<Rightarrow> Inl AttributeError)))"

text \<open>
  The \<open>while pq\<close> loop. It need not end (a cycle of negative total cost is relaxed for
  ever), so its result is an option: \<open>None\<close> when the loop runs for ever.
\<close>

partial_function (option) dijkstra_loop ::
  "addr \<Rightarrow> (port \<times> (addr \<times> int)) list \<Rightarrow> (json \<times> json) list \<Rightarrow> dijkstra
     \<Rightarrow> (pyerror + dijkstra) option" where
  "dijkstra_loop self nbrs db st =
     (if pq st = [] then Some (Inr st)
      else
        (case dijkstra_step self nbrs db st of
           Inl e \<Rightarrow> Some (Inl e)
         | Inr st' \<Rightarrow> dijkstra_loop self nbrs db st'))"

declare dijkstra_loop.simps [code]

definition calculate_forwarding_table :: "LSrouter \<Rightarrow> (LSrouter \<times> pyerror option) option" where
  "calculate_forwarding_table s =
     (case dijkstra_loop (addr s) (neighbors s) (ls_db s)
             \<lparr>distances = [(addr s, 0)], first_hops = [], pq = [(0, addr s)]\<rparr> of
        None \<Rightarrow> None
      | Some (Inl e) \<Rightarrow> Some (s\<lparr>forwarding_table := []\<rparr>, Some e)
      | Some (Inr st) \<Rightarrow> Some (s\<lparr>forwarding_table := first_hops st\<rparr>, None))"

subsection \<open>Flooding\<close>

text \<open>
  \<open>broadcast_link_state\<close> ends with \<open>self.last_sent = int(time.time() * 1000)\<close>: the
  wall clock of the machine, in milliseconds. \<open>now\<close> is that reading.
\<close>

definition dumps_ls :: "addr \<Rightarrow> json \<Rightarrow> json \<Rightarrow> content" where
  "dumps_ls a seq links = Encoded (JObj [(''router'', JStr a), (''seq'', seq), (''links'', links)])"

definition broadcast_link_state :: "LSrouter \<Rightarrow> int \<Rightarrow> LSrouter \<times> sends \<times> pyerror option" where
  "broadcast_link_state s now =
     (case map_of (seq_nums s) (JStr (addr s)) of
        None \<Rightarrow> (s, [], Some KeyError)
      | Some seq \<Rightarrow>
          (case map_of (ls_db s) (JStr (addr s)) of
             None \<Rightarrow> (s, [], Some KeyError)
           | Some links \<Rightarrow>
               (s\<lparr>last_sent := now\<rparr>,
                map (\<lambda>(port, (neighbor, c)).
                       (port, \<lparr>kind = ROUTING, src_addr = addr s, dst_addr = neighbor,
                                content = dumps_ls (addr s) seq links\<rparr>))
                    (neighbors s),
                None)))"

definition flood_packet :: "LSrouter \<Rightarrow> packet \<Rightarrow> port \<Rightarrow> sends" where
  "flood_packet s pkt exclude_port =
     map (\<lambda>port. (port, pkt)) (filter (\<lambda>port. port \<noteq> exclude_port) (map fst (neighbors s)))"

subsection \<open>The four event handlers\<close>

text \<open>
  A handler returns \<open>None\<close> when it never returns, and otherwise the router after it,
  the packets it sent, and the exception it raised to the simulator, if any.
\<close>

definition hashable :: "json \<Rightarrow> bool" where
  "hashable j = (case j of JArr xs \<Rightarrow> False | JObj kv \<Rightarrow> False | _ \<Rightarrow> True)"

text \<open>
  \<open>seq_num > self.seq_nums[router_addr]\<close>, where \<open>seq_num\<close> is hashable: two numbers or
  two strings compare, anything else raises \<open>TypeError\<close>.
\<close>

fun seq_gt :: "json \<Rightarrow> json \<Rightarrow> pyerror + bool" where
  "seq_gt (JNum a) (JNum b) = Inr (a > b)"
| "seq_gt (JStr a) (JStr b) = Inr (a > b)"
| "seq_gt x y = Inl TypeError"

definition ls_accept :: "LSrouter \<Rightarrow> port \<Rightarrow> packet \<Rightarrow> json \<Rightarrow> json \<Rightarrow> json
    \<Rightarrow> (LSrouter \<times> sends \<times> pyerror option) option" where
  "ls_accept s port pkt router_addr seq_num link_state =
     (let s1 = s\<lparr>seq_nums := AList.update router_addr seq_num (seq_nums s),
                 ls_db := AList.update router_addr link_state (ls_db s)\<rparr>
      in case calculate_forwarding_table s1 of
           None \<Rightarrow> None
         | Some (s2, Some e) \<Rightarrow> Some (s2, [], None)
         | Some (s2, None) \<Rightarrow> Some (s2, flood_packet s2 pkt port, None))"

definition ls_handle_packet ::
  "LSrouter \<Rightarrow> port \<Rightarrow> packet \<Rightarrow> (LSrouter \<times> sends \<times> pyerror option) option" where
  "ls_handle_packet s port pkt =
     (if is_traceroute pkt then Some (s, relay s pkt, None)
      else
        (case content pkt of
           Unparseable t \<Rightarrow> Some (s, [], None)
         | Encoded ls_data \<Rightarrow>
             (case (py_getitem ls_data ''router'', py_getitem ls_data ''seq'',
                    py_getitem ls_data ''links'') of
                (Inr router_addr, Inr seq_num, Inr link_state) \<Rightarrow>
                  (if \<not> (hashable router_addr \<and> hashable seq_num) then Some (s, [], None)
                   else if (router_addr, seq_num) \<in> packet_history s then Some (s, [], None)
                   else
                     (let s1 = s\<lparr>packet_history :=
                                   insert (router_addr, seq_num) (packet_history s)\<rparr>
                      in case map_of (seq_nums s1) router_addr of
                           None \<Rightarrow> ls_accept s1 port pkt router_addr seq_num link_state
                         | Some last_seq \<Rightarrow>
                             (case seq_gt seq_num last_seq of
                                Inl e \<Rightarrow> Some (s1, [], None)
                              | Inr True \<Rightarrow> ls_accept s1 port pkt router_addr seq_num link_state
                              | Inr False \<Rightarrow> Some (s1, [], None))))
              | _ \<Rightarrow> Some (s, [], None))))"

text \<open>\<open>self.seq_nums[self.addr] += 1\<close>.\<close>

definition bump_seq :: "LSrouter \<Rightarrow> pyerror + LSrouter" where
  "bump_seq s =
     (case map_of (seq_nums s) (JStr (addr s)) of
        None \<Rightarrow> Inl KeyError
      | Some (JNum n) \<Rightarrow> Inr (s\<lparr>seq_nums := AList.update (JStr (addr s)) (JNum (n + 1)) (seq_nums s)\<rparr>)
      | Some j \<Rightarrow> Inl TypeError)"

text \<open>The common tail of \<open>handle_new_link\<close> and \<open>handle_remove_link\<close>.\<close>

definition ls_announce :: "LSrouter \<Rightarrow> int \<Rightarrow> (LSrouter \<times> sends \<times> pyerror option) option" where
  "ls_announce s now =
     (case bump_seq s of
        Inl e \<Rightarrow> Some (s, [], Some e)
      | Inr s1 \<Rightarrow>
          (case calculate_forwarding_table s1 of
             None \<Rightarrow> None
           | Some (s2, Some e) \<Rightarrow> Some (s2, [], Some e)
           | Some (s2, None) \<Rightarrow> Some (broadcast_link_state s2 now)))"

definition ls_handle_new_link ::
  "LSrouter \<Rightarrow> port \<Rightarrow> addr \<Rightarrow> int \<Rightarrow> int \<Rightarrow> (LSrouter \<times> sends \<times> pyerror option) option" where
  "ls_handle_new_link s port endpoint cost now =
     (let s1 = s\<lparr>neighbors := AList.update port (endpoint, cost) (neighbors s)\<rparr>
      in case map_of (ls_db s1) (JStr (addr s1)) of
           None \<Rightarrow> Some (s1, [], Some KeyError)
         | Some (JObj links) \<Rightarrow>
             ls_announce
               (s1\<lparr>ls_db := AList.update (JStr (addr s1))
                               (JObj (AList.update endpoint (JNum cost) links)) (ls_db s1)\<rparr>)
               now
         | Some j \<Rightarrow> Some (s1, [], Some TypeError))"

definition ls_handle_remove_link ::
  "LSrouter \<Rightarrow> port \<Rightarrow> int \<Rightarrow> (LSrouter \<times> sends \<times> pyerror option) option" where
  "ls_handle_remove_link s port now =
     (case map_of (neighbors s) port of
        None \<Rightarrow> Some (s, [], None)
      | Some (neighbor_addr, c) \<Rightarrow>
          (let s1 = s\<lparr>neighbors := AList.delete port (neighbors s)\<rparr>
           in case map_of (ls_db s1) (JStr (addr s1)) of
                None \<Rightarrow> Some (s1, [], Some KeyError)
              | Some own \<Rightarrow>
                  (case py_contains own neighbor_addr of
                     Inl e \<Rightarrow> Some (s1, [], Some e)
                   | Inr False \<Rightarrow> ls_announce s1 now
                   | Inr True \<Rightarrow>
                       (case own of
                          JObj links \<Rightarrow>
                            ls_announce
                              (s1\<lparr>ls_db := AList.update (JStr (addr s1))
                                              (JObj (AList.delete neighbor_addr links))
                                              (ls_db s1)\<rparr>)
                              now
                        | _ \<Rightarrow> Some (s1, [], Some TypeError)))))"

definition ls_handle_time :: "LSrouter \<Rightarrow> int \<Rightarrow> int \<Rightarrow> LSrouter \<times> sends \<times> pyerror option" where
  "ls_handle_time s time_ms now =
     (if time_ms - last_sent s \<ge> heartbeat_time s
      then (case broadcast_link_state s now of
              (s1, out, Some e) \<Rightarrow> (s1, out, Some e)
            | (s1, out, None) \<Rightarrow> (s1\<lparr>last_sent := time_ms\<rparr>, out, None))
      else (s, [], None))"

subsection \<open>Runs\<close>




section \<open>Example routers\<close>

text \<open>
  Router \<open>A\<close> with two links, to \<open>B\<close> on port 1 and to \<open>D\<close> on port 2, both of cost 1,
  after \<open>B\<close> has advertised a route of cost 1 to \<open>C\<close> and \<open>D\<close> one of cost 5.
\<close>

definition dv_A :: DVrouter where
  "dv_A =
     \<lparr>addr = ''A'', heartbeat_time = 10, last_sent = 0,
      neighbors = [(1, (''B'', 1)), (2, (''D'', 1))],
      forwarding_table = [(''B'', 1), (''D'', 2), (''C'', 1)],
      dv = [(''A'', (0, None)), (''B'', (1, Some 1)), (''D'', (1, Some 2)), (''C'', (2, Some 1))],
      neighbor_dvs = [(''B'', JObj [(''B'', JNum 0), (''C'', JNum 1)]),
                      (''D'', JObj [(''D'', JNum 0), (''C'', JNum 5)])]\<rparr>"

text \<open>
  The link state router \<open>A\<close> with the same two links, after a record of \<open>B\<close> with
  sequence number 1 that lists \<open>A\<close> and \<open>C\<close> at cost 1.
\<close>

definition ls_A :: LSrouter where
  "ls_A =
     \<lparr>addr = ''A'', heartbeat_time = 10, last_sent = 0,
      neighbors = [(1, (''B'', 1)), (2, (''D'', 1))],
      forwarding_table = [(''B'', 1), (''D'', 2), (''C'', 1)],
      ls_db = [(JStr ''A'', JObj [(''B'', JNum 1), (''D'', JNum 1)]),
               (JStr ''B'', JObj [(''A'', JNum 1), (''C'', JNum 1)])],
      seq_nums = [(JStr ''A'', JNum 2), (JStr ''B'', JNum 1)],
      packet_history = {(JStr ''B'', JNum 1)}\<rparr>"

section \<open>Predicates, measures and examples of the proofs\<close>

text \<open>
  A stored vector is well formed when it is a dict whose costs are all numbers; on such
  vectors \<open>update_distance_vector\<close> raises nothing.
\<close>

definition wf_vector :: "json \<Rightarrow> bool" where
  "wf_vector j =
     (case j of
        JObj kv \<Rightarrow> list_all (\<lambda>(dest, cost). case cost of JNum n \<Rightarrow> True | _ \<Rightarrow> False) kv
      | _ \<Rightarrow> False)"

definition wf_vectors :: "(addr \<times> json) list \<Rightarrow> bool" where
  "wf_vectors ndvs = list_all (\<lambda>(n, j). wf_vector j) ndvs"

text \<open>
  What the recomputation reads of the stored vectors: \<open>.keys()\<close> of every stored vector,
  and, for every neighbor of the link table that has a stored vector, the cost of every
  destination of that vector other than the router itself. The stored vectors are
  readable when every one is a dict and these costs are numbers.
\<close>

definition is_number :: "json \<Rightarrow> bool" where
  "is_number j = (case j of JNum x \<Rightarrow> True | _ \<Rightarrow> False)"

definition numeric_costs :: "addr \<Rightarrow> (string \<times> json) list \<Rightarrow> bool" where
  "numeric_costs self kv = list_all (\<lambda>(d, cost). d = self \<or> is_number cost) kv"

definition readable_from ::
  "addr \<Rightarrow> (addr \<times> json) list \<Rightarrow> (port \<times> (addr \<times> int)) list \<Rightarrow> bool" where
  "readable_from self ndvs nbrs =
     list_all (\<lambda>(q, (m, c)). case map_of ndvs m of
                                   None \<Rightarrow> True
                                 | Some (JObj kv) \<Rightarrow> numeric_costs self kv
                                 | Some j \<Rightarrow> False) nbrs"

definition readable_vectors :: "DVrouter \<Rightarrow> bool" where
  "readable_vectors s \<longleftrightarrow>
     list_all (\<lambda>(m, j). case j of JObj kv \<Rightarrow> True | _ \<Rightarrow> False) (neighbor_dvs s) \<and>
     readable_from (addr s) (neighbor_dvs s) (neighbors s)"

definition direct_cands :: "(port \<times> (addr \<times> int)) list \<Rightarrow> addr \<Rightarrow> (int \<times> port) list" where
  "direct_cands nbrs dest =
     concat (map (\<lambda>(port, (endpoint, cost)). if endpoint = dest then [(cost, port)] else []) nbrs)"

definition via_cands ::
  "(addr \<times> json) list \<Rightarrow> (port \<times> (addr \<times> int)) list \<Rightarrow> addr \<Rightarrow> (int \<times> port) list" where
  "via_cands ndvs nbrs dest =
     concat (map (\<lambda>(port, (neighbor, direct_cost)).
                    (case map_of ndvs neighbor of
                       Some (JObj kv) \<Rightarrow>
                         (case map_of kv dest of
                            Some (JNum neighbor_cost) \<Rightarrow>
                              if neighbor_cost < 16 \<and> direct_cost + neighbor_cost < 16
                              then [(direct_cost + neighbor_cost, port)] else []
                          | _ \<Rightarrow> [])
                     | _ \<Rightarrow> []))
                 nbrs)"

definition candidates :: "DVrouter \<Rightarrow> addr \<Rightarrow> (int \<times> port) list" where
  "candidates s dest =
     direct_cands (neighbors s) dest @ via_cands (neighbor_dvs s) (neighbors s) dest"

fun pick :: "(int \<times> port) list \<Rightarrow> (int \<times> port) option \<Rightarrow> (int \<times> port) option" where
  "pick [] best = best"
| "pick ((c, p) # rest) best = pick rest (if lt_best c best then Some (c, p) else best)"

definition best_route :: "DVrouter \<Rightarrow> addr \<Rightarrow> (int \<times> port) option" where
  "best_route s dest = pick (candidates s dest) None"

text \<open>What one visit of the loop leaves in \<open>dv\<close> for the destination visited.\<close>

definition new_route :: "DVrouter \<Rightarrow> addr \<Rightarrow> (int \<times> port option) option" where
  "new_route s dest =
     (case best_route s dest of
        None \<Rightarrow> None
      | Some (best_cost, best_port) \<Rightarrow>
          (case map_of (dv s) dest of
             None \<Rightarrow> Some (best_cost, Some best_port)
           | Some (c, p) \<Rightarrow> if c > best_cost then Some (best_cost, Some best_port) else Some (c, p)))"

definition new_hop :: "DVrouter \<Rightarrow> addr \<Rightarrow> port option" where
  "new_hop s dest =
     (case best_route s dest of
        None \<Rightarrow> (case map_of (dv s) dest of
                   None \<Rightarrow> map_of (forwarding_table s) dest
                 | Some cp \<Rightarrow> None)
      | Some (best_cost, best_port) \<Rightarrow>
          (case map_of (dv s) dest of
             None \<Rightarrow> Some best_port
           | Some (c, p) \<Rightarrow> if c > best_cost then Some best_port
                             else map_of (forwarding_table s) dest))"

text \<open>One visit of the loop over the destinations.\<close>

definition visit :: "DVrouter \<Rightarrow> addr \<Rightarrow> DVrouter" where
  "visit s dest =
     (if dest = addr s then s
      else case best_route s dest of
             Some (best_cost, best_port) \<Rightarrow>
               if (case map_of (dv s) dest of None \<Rightarrow> True | Some (c, p) \<Rightarrow> c > best_cost)
               then s\<lparr>dv := AList.update dest (best_cost, Some best_port) (dv s),
                      forwarding_table := AList.update dest best_port (forwarding_table s)\<rparr>
               else s
           | None \<Rightarrow>
               if map_of (dv s) dest \<noteq> None
               then s\<lparr>dv := AList.delete dest (dv s),
                      forwarding_table := AList.delete dest (forwarding_table s)\<rparr>
               else s)"

definition touched :: "DVrouter \<Rightarrow> addr \<Rightarrow> bool" where
  "touched s dest = (dest \<noteq> addr s \<and> new_route s dest \<noteq> map_of (dv s) dest)"

text \<open>
  The destinations the loop visits: the keys of the stored vectors and the endpoints of
  the links.
\<close>

definition known_dests :: "DVrouter \<Rightarrow> addr set" where
  "known_dests s =
     {d. \<exists>n kv. (n, JObj kv) \<in> set (neighbor_dvs s) \<and> d \<in> fst ` set kv} \<union>
     (\<lambda>(port, (endpoint, cost)). endpoint) ` set (neighbors s)"

text \<open>
  The invariant as the data model words it: the costs of the routes to \<open>d\<close>, the direct
  link cost when \<open>d\<close> is a neighbor and \<open>link_cost(n) + neighbor_dvs[n][d]\<close> for every
  neighbor \<open>n\<close>, those of 16 or more left out; \<open>dv[d].cost\<close> is the least of them, and a
  destination with none is not in \<open>dv\<close>.
\<close>

definition spec_costs :: "DVrouter \<Rightarrow> addr \<Rightarrow> int list" where
  "spec_costs s d =
     filter (\<lambda>c. c < 16)
       (concat (map (\<lambda>(port, (n, link_cost)).
                       (if n = d then [link_cost] else []) @
                       (case map_of (neighbor_dvs s) n of
                          Some (JObj kv) \<Rightarrow>
                            (case map_of kv d of Some (JNum c) \<Rightarrow> [link_cost + c] | _ \<Rightarrow> [])
                        | _ \<Rightarrow> []))
                    (neighbors s)))"

definition spec_dv_invariant :: "DVrouter \<Rightarrow> bool" where
  "spec_dv_invariant s =
     list_all (\<lambda>(d, (c, p)). d = addr s \<or> (spec_costs s d \<noteq> [] \<and> c = Min (set (spec_costs s d))))
       (dv s)"

definition pkt_B_C9 :: packet where
  "pkt_B_C9 = \<lparr>kind = ROUTING, src_addr = ''B'', dst_addr = ''A'',
               content = Encoded (JObj [(''B'', JNum 0), (''C'', JNum 9)])\<rparr>"

text \<open>
  The line \<open>A\<close> -- \<open>B\<close> -- \<open>C\<close> with links of cost 1. \<open>line_B\<close> is router \<open>B\<close> once its
  links to \<open>A\<close> (port 1) and to \<open>C\<close> (port 2) are up; \<open>pkt_B_up\<close> is the packet it sent
  to \<open>A\<close> when the link to \<open>C\<close> came up, and \<open>pkt_B_down\<close> the packet it sends to \<open>A\<close>
  when that link is removed. \<open>line_A\<close> is router \<open>A\<close> once its link to \<open>B\<close> (port 1) is up
  and \<open>pkt_B_up\<close> has arrived; \<open>line_A_after\<close> is \<open>A\<close> after \<open>pkt_B_down\<close> has arrived and
  the timer has ticked at 10 and at 20, the heartbeat being 10. In these runs the sets
  are visited in the order of the list.
\<close>

definition line_B :: DVrouter where
  "line_B =
     fst (dv_handle_new_link (fst (dv_handle_new_link (dv_init ''B'' 10) 1 ''A'' 1 id)) 2 ''C'' 1 id)"

definition pkt_B_up :: packet where
  "pkt_B_up =
     snd (hd (fst (snd (dv_handle_new_link
                          (fst (dv_handle_new_link (dv_init ''B'' 10) 1 ''A'' 1 id)) 2 ''C'' 1 id))))"

definition pkt_B_down :: packet where
  "pkt_B_down = snd (hd (fst (snd (dv_handle_remove_link line_B 2 id))))"

definition line_A :: DVrouter where
  "line_A =
     fst (dv_handle_packet (fst (dv_handle_new_link (dv_init ''A'' 10) 1 ''B'' 1 id)) 1 pkt_B_up id)"

definition line_A_after :: DVrouter where
  "line_A_after =
     fst (dv_handle_time
            (fst (dv_handle_time (fst (dv_handle_packet line_A 1 pkt_B_down id)) 10 id)) 20 id)"

text \<open>
  The costs the recomputation chooses from: the cost of every link to \<open>d\<close>, whatever
  its size, and \<open>link_cost(n) + neighbor_dvs[n][d]\<close> where both the advertised cost and
  the sum are below 16.
\<close>

definition cand_costs :: "DVrouter \<Rightarrow> addr \<Rightarrow> int set" where
  "cand_costs s d = fst ` set (candidates s d)"


text \<open>
  Whether \<open>handle_packet\<close> takes the vector \<open>its\<close> received from \<open>n\<close> as changed: \<open>n\<close> has no
  stored vector, or some destination of \<open>its\<close> is missing from the stored vector or has
  another cost there.
\<close>

definition counts_as_changed :: "DVrouter \<Rightarrow> addr \<Rightarrow> (string \<times> json) list \<Rightarrow> bool" where
  "counts_as_changed s n its =
     (case map_of (neighbor_dvs s) n of
        None \<Rightarrow> True
      | Some (JObj old) \<Rightarrow> (\<exists>x \<in> set its. map_of old (fst x) \<noteq> Some (snd x))
      | Some j \<Rightarrow> False)"

text \<open>
  The handler as C6 words it: store the vector, recompute, and broadcast if and only if
  the recomputation changed the local vector.
\<close>

definition spec_dv_handle_routing ::
  "DVrouter \<Rightarrow> addr \<Rightarrow> json \<Rightarrow> set_order \<Rightarrow> DVrouter \<times> sends \<times> pyerror option" where
  "spec_dv_handle_routing s n received_dv hash_order =
     (case update_distance_vector
             (s\<lparr>neighbor_dvs := AList.update n received_dv (neighbor_dvs s)\<rparr>) hash_order of
        (s2, Inr True) \<Rightarrow> (case broadcast_dv s2 of (s3, out) \<Rightarrow> (s3, out, None))
      | (s2, r) \<Rightarrow> (s2, [], None))"

text \<open>
  Router \<open>A\<close> as in the example, except that \<open>D\<close> has advertised \<open>C\<close> at cost 16; the two
  vectors that \<open>B\<close> and \<open>D\<close> have advertised to it; and a vector of \<open>B\<close> that no longer
  lists \<open>C\<close>.
\<close>

definition pkt_B_C1 :: packet where
  "pkt_B_C1 = \<lparr>kind = ROUTING, src_addr = ''B'', dst_addr = ''A'',
               content = Encoded (JObj [(''B'', JNum 0), (''C'', JNum 1)])\<rparr>"

definition pkt_D_C16 :: packet where
  "pkt_D_C16 = \<lparr>kind = ROUTING, src_addr = ''D'', dst_addr = ''A'',
                content = Encoded (JObj [(''D'', JNum 0), (''C'', JNum 16)])\<rparr>"

definition dv_A16 :: DVrouter where
  "dv_A16 = dv_A\<lparr>neighbor_dvs := [(''B'', JObj [(''B'', JNum 0), (''C'', JNum 1)]),
                                   (''D'', JObj [(''D'', JNum 0), (''C'', JNum 16)])]\<rparr>"

definition pkt_B_only :: packet where
  "pkt_B_only = \<lparr>kind = ROUTING, src_addr = ''B'', dst_addr = ''A'',
                 content = Encoded (JObj [(''B'', JNum 0)])\<rparr>"

text \<open>
  Router \<open>A\<close> right after its link to \<open>B\<close> came up, and a routing packet whose content is
  the JSON text \<open>[1, 2]\<close>; a link state packet whose \<open>links\<close> is the number 5.
  \<open>dv_garbled\<close> is router \<open>A\<close> after a second link, to \<open>D\<close> on port 2, has come up and the
  packet from \<open>B\<close> has arrived.
\<close>

definition dv_fresh :: DVrouter where
  "dv_fresh = fst (dv_handle_new_link (dv_init ''A'' 10) 1 ''B'' 1 id)"

definition pkt_array :: packet where
  "pkt_array = \<lparr>kind = ROUTING, src_addr = ''B'', dst_addr = ''A'',
                content = Encoded (JArr [JNum 1, JNum 2])\<rparr>"


definition pkt_links5 :: packet where
  "pkt_links5 = \<lparr>kind = ROUTING, src_addr = ''B'', dst_addr = ''A'',
                 content = Encoded (JObj [(''router'', JStr ''C''), (''seq'', JNum 1),
                                          (''links'', JNum 5)])\<rparr>"

text \<open>
  An adjacency list is well formed when it is a dict whose costs are non-negative
  numbers, and a database when all its adjacency lists are.
\<close>

definition wf_links :: "json \<Rightarrow> bool" where
  "wf_links j =
     (case j of
        JObj es \<Rightarrow> list_all (\<lambda>(v, c). case c of JNum n \<Rightarrow> 0 \<le> n | _ \<Rightarrow> False) es
      | _ \<Rightarrow> False)"

definition wf_db :: "(json \<times> json) list \<Rightarrow> bool" where
  "wf_db db = list_all (\<lambda>(k, j). wf_links j) db"

text \<open>The directed graph \<open>ls_db\<close> implies: an edge from \<open>u\<close> to \<open>v\<close> of cost \<open>c\<close>.\<close>

definition edge :: "(json \<times> json) list \<Rightarrow> addr \<Rightarrow> addr \<Rightarrow> int \<Rightarrow> bool" where
  "edge db u v c = (\<exists>es. map_of db (JStr u) = Some (JObj es) \<and> (v, JNum c) \<in> set es)"

text \<open>A walk from \<open>u\<close> to \<open>v\<close> of total cost \<open>w\<close>.\<close>

inductive walk :: "(json \<times> json) list \<Rightarrow> addr \<Rightarrow> addr \<Rightarrow> int \<Rightarrow> bool"
  for db :: "(json \<times> json) list" and u :: addr where
  walk_refl: "walk db u u 0"
| walk_step: "walk db u v w \<Longrightarrow> edge db v x c \<Longrightarrow> walk db u x (w + c)"

text \<open>
  Port \<open>p\<close> starts a walk of cost \<open>w\<close> from \<open>self\<close> to \<open>v\<close>: the walk's first edge goes to a
  neighbor that the link table reaches through \<open>p\<close>.
\<close>

definition hop ::
  "(json \<times> json) list \<Rightarrow> addr \<Rightarrow> (port \<times> (addr \<times> int)) list \<Rightarrow> port \<Rightarrow> addr \<Rightarrow> int \<Rightarrow> bool" where
  "hop db self nbrs p v w =
     (\<exists>n c c' w'. edge db self n c \<and> (p, (n, c')) \<in> set nbrs \<and> walk db n v w' \<and> w = c + w')"

text \<open>Every neighbor \<open>ls_db[self]\<close> lists is the endpoint of a port of the link table.\<close>

definition hops_known :: "addr \<Rightarrow> (port \<times> (addr \<times> int)) list \<Rightarrow> (json \<times> json) list \<Rightarrow> bool" where
  "hops_known self nbrs db =
     (case map_of db (JStr self) of
        Some (JObj es) \<Rightarrow> list_all (\<lambda>(v, c). v \<in> (\<lambda>(p, (n, c')). n) ` set nbrs) es
      | _ \<Rightarrow> True)"

definition nodes :: "addr \<Rightarrow> (json \<times> json) list \<Rightarrow> addr set" where
  "nodes self db =
     insert self (\<Union>(k, j) \<in> set db. case j of JObj es \<Rightarrow> fst ` set es | _ \<Rightarrow> {})"

text \<open>What relaxing one edge of cost \<open>c\<close> from \<open>u\<close> to \<open>v\<close> makes of the state.\<close>

definition relax1 ::
  "addr \<Rightarrow> (port \<times> (addr \<times> int)) list \<Rightarrow> addr \<Rightarrow> int \<Rightarrow> addr \<Rightarrow> int \<Rightarrow> dijkstra \<Rightarrow> dijkstra" where
  "relax1 self nbrs u du v c st =
     (if (case map_of (distances st) v of None \<Rightarrow> True | Some d \<Rightarrow> du + c < d)
      then \<lparr>distances = AList.update v (du + c) (distances st),
            first_hops = set_first_hop self nbrs u v (first_hops st),
            pq = heappush (pq st) (du + c, v)\<rparr>
      else st)"

definition inv_t :: "addr set \<Rightarrow> dijkstra \<Rightarrow> bool" where
  "inv_t V st \<longleftrightarrow>
     fst ` set (distances st) \<subseteq> V \<and> distinct (map fst (distances st)) \<and>
     (\<forall>v d. map_of (distances st) v = Some d \<longrightarrow> 0 \<le> d) \<and>
     (\<forall>d u. (d, u) \<in> set (pq st) \<longrightarrow> 0 \<le> d)"

definition closed :: "(json \<times> json) list \<Rightarrow> (addr \<rightharpoonup> int) \<Rightarrow> addr \<Rightarrow> int \<Rightarrow> bool" where
  "closed db D x dx \<longleftrightarrow> (\<forall>v c. edge db x v c \<longrightarrow> (\<exists>dv. D v = Some dv \<and> dv \<le> dx + c))"

definition inv_hops ::
  "addr \<Rightarrow> (port \<times> (addr \<times> int)) list \<Rightarrow> (json \<times> json) list \<Rightarrow> dijkstra \<Rightarrow> bool" where
  "inv_hops self nbrs db st \<longleftrightarrow>
     (\<forall>v d. map_of (distances st) v = Some d \<and> v \<noteq> self \<longrightarrow>
        (\<exists>p. map_of (first_hops st) v = Some p \<and> hop db self nbrs p v d)) \<and>
     (\<forall>v p. map_of (first_hops st) v = Some p \<longrightarrow> v \<noteq> self \<and> map_of (distances st) v \<noteq> None)"

definition inv_base ::
  "addr \<Rightarrow> (port \<times> (addr \<times> int)) list \<Rightarrow> (json \<times> json) list \<Rightarrow> dijkstra \<Rightarrow> bool" where
  "inv_base self nbrs db st \<longleftrightarrow>
     inv_t (nodes self db) st \<and> map_of (distances st) self = Some 0 \<and>
     (\<forall>d u. (d, u) \<in> set (pq st) \<longrightarrow> (\<exists>du. map_of (distances st) u = Some du \<and> du \<le> d)) \<and>
     (hops_known self nbrs db \<longrightarrow> inv_hops self nbrs db st)"

definition settled :: "(json \<times> json) list \<Rightarrow> addr set \<Rightarrow> dijkstra \<Rightarrow> bool" where
  "settled db X st \<longleftrightarrow>
     (\<forall>x dx. map_of (distances st) x = Some dx \<and> x \<notin> X \<longrightarrow>
        (dx, x) \<in> set (pq st) \<or> closed db (map_of (distances st)) x dx)"

definition inv_mid ::
  "addr \<Rightarrow> (port \<times> (addr \<times> int)) list \<Rightarrow> (json \<times> json) list \<Rightarrow> addr \<Rightarrow> int \<Rightarrow> (addr \<times> int) set
     \<Rightarrow> dijkstra \<Rightarrow> bool" where
  "inv_mid self nbrs db u du S st \<longleftrightarrow>
     inv_base self nbrs db st \<and> settled db {u} st \<and> map_of (distances st) u = Some du \<and>
     (\<forall>v c. (v, c) \<in> S \<longrightarrow> (\<exists>dv. map_of (distances st) v = Some dv \<and> dv \<le> du + c))"

definition m12 :: "addr set \<Rightarrow> dijkstra \<Rightarrow> nat \<times> nat" where
  "m12 V st = (card (V - fst ` set (distances st)), sum_list (map (\<lambda>(v, d). nat d) (distances st)))"

definition progress :: "addr set \<Rightarrow> dijkstra \<Rightarrow> dijkstra \<Rightarrow> bool" where
  "progress V st st' \<longleftrightarrow>
     st' = st \<or> fst (m12 V st') < fst (m12 V st) \<or>
     (fst (m12 V st') = fst (m12 V st) \<and> snd (m12 V st') < snd (m12 V st))"

text \<open>The invariant of the \<open>while\<close> loop, and the measure that decreases with every turn.\<close>

definition inv_loop ::
  "addr \<Rightarrow> (port \<times> (addr \<times> int)) list \<Rightarrow> (json \<times> json) list \<Rightarrow> dijkstra \<Rightarrow> bool" where
  "inv_loop self nbrs db st \<longleftrightarrow> inv_base self nbrs db st \<and> settled db {} st"

definition meas :: "addr set \<Rightarrow> dijkstra \<Rightarrow> nat \<times> nat \<times> nat" where
  "meas V st = (fst (m12 V st), snd (m12 V st), length (pq st))"

text \<open>
  Port 1 of the link state router \<open>A\<close> first leads to \<open>B\<close> and is then given to \<open>C\<close>
  without a link removal in between.
\<close>

definition ls_reused :: LSrouter where
  "ls_reused =
     fst (the (ls_handle_new_link
                 (fst (the (ls_handle_new_link (ls_init ''A'' 10) 1 ''B'' 1 0))) 1 ''C'' 1 0))"














section \<open>Removing a link that is not there\<close>

text \<open>
  C10. In both routers, \<open>handle_remove_link\<close> with a port that is not a key of
  \<open>neighbors\<close> returns at once: the router it returns is the router it was given, in
  every field (so no sequence number moves), it sends no packet and raises nothing.
\<close>

theorem remove_link_unknown_port_noop:
  assumes "port \<notin> fst ` set (neighbors d)" and "port' \<notin> fst ` set (neighbors l)"
  shows "dv_handle_remove_link d port hash_order = (d, [], None) \<and>
         ls_handle_remove_link l port' now = Some (l, [], None)"
proof -
  from assms have "map_of (neighbors d) port = None" and "map_of (neighbors l) port' = None"
    by (simp_all add: map_of_eq_None_iff)
  then show ?thesis
    by (simp add: dv_handle_remove_link_def ls_handle_remove_link_def)
qed

theorem remove_link_unknown_port_noop_witness:
  "3 \<notin> fst ` set (neighbors dv_A) \<and> 3 \<notin> fst ` set (neighbors ls_A) \<and>
   dv_handle_remove_link dv_A 3 id = (dv_A, [], None) \<and>
   ls_handle_remove_link ls_A 3 1000 = Some (ls_A, [], None)"
proof -
  have a: "3 \<notin> fst ` set (neighbors dv_A)" by (simp add: dv_A_def)
  have b: "3 \<notin> fst ` set (neighbors ls_A)" by (simp add: ls_A_def)
  from remove_link_unknown_port_noop [OF a b, of id 1000] a b show ?thesis by simp
qed

section \<open>Split horizon with poison reverse\<close>

lemma fold_poison_map_of:
  "distinct (map fst xs) \<Longrightarrow>
   map_of (fold (\<lambda>(dest, (cost, out_port)) sd.
                  AList.update dest (if out_port = Some port then 16 else cost) sd) xs acc) d =
   (case map_of xs d of
      Some (cost, out_port) \<Rightarrow> Some (if out_port = Some port then 16 else cost)
    | None \<Rightarrow> map_of acc d)"
proof (induction xs arbitrary: acc)
  case Nil
  then show ?case by simp
next
  case (Cons x xs)
  obtain dest cost out_port where x: "x = (dest, (cost, out_port))" by (cases x) auto
  from Cons.prems have nd: "map_of xs dest = None" and dx: "distinct (map fst xs)"
    by (auto simp: x map_of_eq_None_iff)
  show ?case
    using nd by (auto simp: x Cons.IH [OF dx] update_conv split: option.splits)
qed

lemma simplified_dv_map_of:
  "distinct (map fst (dv s)) \<Longrightarrow>
   map_of (simplified_dv s port) d =
   (case map_of (dv s) d of
      Some (cost, out_port) \<Rightarrow> Some (if out_port = Some port then 16 else cost)
    | None \<Rightarrow> if d = addr s then Some 0 else None)"
  by (auto simp add: simplified_dv_def fold_poison_map_of split: option.splits)

lemma broadcast_dv_fields:
  "neighbors (fst (broadcast_dv s)) = neighbors s"
  "addr (fst (broadcast_dv s)) = addr s"
  "dv (fst (broadcast_dv s)) = AList.update (addr s) (0, None) (dv s)"
  "neighbor_dvs (fst (broadcast_dv s)) = neighbor_dvs s"
  "forwarding_table (fst (broadcast_dv s)) = forwarding_table s"
  "last_sent (fst (broadcast_dv s)) = last_sent s"
  "heartbeat_time (fst (broadcast_dv s)) = heartbeat_time s"
  by (simp_all add: broadcast_dv_def Let_def)

lemma broadcast_dv_sends:
  "snd (broadcast_dv s) =
     concat (map (send_dv_to_neighbor (fst (broadcast_dv s))) (map fst (neighbors s)))"
  by (simp add: broadcast_dv_def Let_def)

text \<open>
  C3. Every vector goes out through \<open>send_dv_to_neighbor\<close>, called by \<open>broadcast_dv\<close>
  (and once more by \<open>handle_new_link\<close> right after it) on the router \<open>broadcast_dv\<close>
  leaves, whose \<open>dv\<close> maps the router's own address to \<open>(0, None)\<close>. For every router
  \<open>s\<close> whose \<open>dv\<close> is a dict and every port \<open>p\<close> with a neighbor \<open>n\<close>, the packet sent on
  \<open>p\<close> is one routing packet to \<open>n\<close> whose vector gives the own address cost 0, and
  gives every destination of \<open>dv\<close> the cost 16 when its route leaves through \<open>p\<close> and
  its cost in \<open>dv\<close> otherwise, and holds nothing else. So no destination routed through
  \<open>p\<close> is ever advertised on \<open>p\<close> below 16.
\<close>

theorem poison_reverse:
  assumes "distinct (map fst (dv s))" and "map_of (neighbors s) p = Some (n, c)"
  shows "snd (broadcast_dv s) =
           concat (map (send_dv_to_neighbor (fst (broadcast_dv s))) (map fst (neighbors s))) \<and>
         send_dv_to_neighbor (fst (broadcast_dv s)) p =
           [(p, \<lparr>kind = ROUTING, src_addr = addr s, dst_addr = n,
                  content = dumps_vector (simplified_dv (fst (broadcast_dv s)) p)\<rparr>)] \<and>
         map_of (simplified_dv (fst (broadcast_dv s)) p) (addr s) = Some 0 \<and>
         (\<forall>d. map_of (simplified_dv (fst (broadcast_dv s)) p) d =
              (case map_of (dv (fst (broadcast_dv s))) d of
                 None \<Rightarrow> None
               | Some (cost, out_port) \<Rightarrow> Some (if out_port = Some p then 16 else cost)))"
proof -
  let ?s = "fst (broadcast_dv s)"
  have d: "distinct (map fst (dv ?s))"
    using assms(1) by (simp add: broadcast_dv_fields distinct_update)
  have self: "map_of (dv ?s) (addr s) = Some (0, None)"
    by (simp add: broadcast_dv_fields update_conv)
  show ?thesis
    using assms(2) self
    by (auto simp: send_dv_to_neighbor_def broadcast_dv_fields broadcast_dv_sends
        simplified_dv_map_of [OF d] split: option.splits)
qed

theorem poison_reverse_witness:
  "distinct (map fst (dv dv_A)) \<and> map_of (neighbors dv_A) 1 = Some (''B'', 1) \<and>
   send_dv_to_neighbor (fst (broadcast_dv dv_A)) 1 =
     [(1, \<lparr>kind = ROUTING, src_addr = ''A'', dst_addr = ''B'',
            content = Encoded (JObj [(''A'', JNum 0), (''B'', JNum 16), (''D'', JNum 1),
                                     (''C'', JNum 16)])\<rparr>)] \<and>
   map_of (simplified_dv (fst (broadcast_dv dv_A)) 1) ''C'' = Some 16"
proof -
  have a: "distinct (map fst (dv dv_A))" by (simp add: dv_A_def)
  have b: "map_of (neighbors dv_A) 1 = Some (''B'', 1)" by (simp add: dv_A_def)
  have c: "simplified_dv (fst (broadcast_dv dv_A)) 1 =
             [(''A'', 0), (''B'', 16), (''D'', 1), (''C'', 16)]"
    by code_simp
  have e: "addr dv_A = ''A''" by (simp add: dv_A_def)
  from poison_reverse [OF a b] a b show ?thesis
    by (simp add: c e dumps_vector_def)
qed

section \<open>Recomputation of the distance vector\<close>

lemma pick_append: "pick (xs @ ys) best = pick ys (pick xs best)"
  by (induction xs arbitrary: best) auto

lemma direct_best_pick: "direct_best nbrs dest best = pick (direct_cands nbrs dest) best"
  by (induction nbrs dest best rule: direct_best.induct) (auto simp: direct_cands_def)

lemma wf_vectors_lookup:
  "wf_vectors ndvs \<Longrightarrow> map_of ndvs n = Some vec \<Longrightarrow> wf_vector vec"
  by (induction ndvs) (auto simp: wf_vectors_def split: if_splits)

lemma wf_vector_lookup:
  "wf_vector (JObj kv) \<Longrightarrow> map_of kv d = Some c \<Longrightarrow> \<exists>n. c = JNum n"
  by (induction kv) (auto simp: wf_vector_def split: if_splits json.splits)

lemma numeric_costs_lookup:
  "numeric_costs self kv \<Longrightarrow> map_of kv d = Some c \<Longrightarrow> d \<noteq> self \<Longrightarrow> \<exists>n. c = JNum n"
proof (induction kv)
  case Nil
  then show ?case by simp
next
  case (Cons x kv)
  obtain k v where x: "x = (k, v)" by (cases x) auto
  show ?case
  proof (cases "k = d")
    case True
    with Cons.prems have "is_number c" by (simp add: x numeric_costs_def)
    then show ?thesis by (cases c) (simp_all add: is_number_def)
  next
    case False
    with Cons.prems have "numeric_costs self kv" "map_of kv d = Some c"
      by (simp_all add: x numeric_costs_def)
    with Cons.IH Cons.prems(3) show ?thesis by blast
  qed
qed

lemma wf_vectors_readable:
  assumes "wf_vectors (neighbor_dvs s)"
  shows "readable_vectors s"
proof -
  have 1: "list_all (\<lambda>(m, j). case j of JObj kv \<Rightarrow> True | _ \<Rightarrow> False) (neighbor_dvs s)"
    using assms
    by (auto simp: wf_vectors_def wf_vector_def list_all_iff split: json.splits)
  have 2: "(case map_of (neighbor_dvs s) m of
              None \<Rightarrow> True
            | Some (JObj kv) \<Rightarrow> numeric_costs self kv
            | Some j \<Rightarrow> False)" for m self
  proof (cases "map_of (neighbor_dvs s) m")
    case None
    then show ?thesis by simp
  next
    case (Some j)
    with assms have "wf_vector j" by (rule wf_vectors_lookup)
    then show ?thesis
      by (cases j) (auto simp: Some wf_vector_def numeric_costs_def is_number_def list_all_iff
          split: json.splits)
  qed
  show ?thesis
    unfolding readable_vectors_def readable_from_def
    using 1 2 by (auto simp: list_all_iff)
qed

lemma via_best_pick:
  assumes "readable_from self ndvs nbrs" and "dest \<noteq> self"
  shows "via_best ndvs nbrs dest best = Inr (pick (via_cands ndvs nbrs dest) best)"
  using assms(1)
proof (induction nbrs arbitrary: best)
  case Nil
  then show ?case by (simp add: via_cands_def)
next
  case (Cons x nbrs)
  obtain port neighbor direct_cost where x: "x = (port, (neighbor, direct_cost))"
    by (cases x) auto
  from Cons.prems have hd: "(case map_of ndvs neighbor of
                               None \<Rightarrow> True
                             | Some (JObj kv) \<Rightarrow> numeric_costs self kv
                             | Some j \<Rightarrow> False)"
    and tl: "readable_from self ndvs nbrs"
    by (simp_all add: readable_from_def x)
  note IH = Cons.IH [OF tl]
  have split: "via_cands ndvs ((port, (neighbor, direct_cost)) # nbrs) dest =
     (case map_of ndvs neighbor of
                       Some (JObj kv) \<Rightarrow>
                         (case map_of kv dest of
                            Some (JNum neighbor_cost) \<Rightarrow>
                              if neighbor_cost < 16 \<and> direct_cost + neighbor_cost < 16
                              then [(direct_cost + neighbor_cost, port)] else []
                          | _ \<Rightarrow> [])
                     | _ \<Rightarrow> []) @ via_cands ndvs nbrs dest"
    by (simp add: via_cands_def)
  show ?case
  proof (cases "map_of ndvs neighbor")
    case None
    then show ?thesis by (simp add: x split IH)
  next
    case (Some vec)
    with hd obtain kv where vec: "vec = JObj kv" and nc: "numeric_costs self kv"
      by (cases vec) auto
    show ?thesis
    proof (cases "map_of kv dest")
      case None
      then show ?thesis by (simp add: x split Some vec IH)
    next
      case S2: (Some c)
      from numeric_costs_lookup [OF nc S2 assms(2)] obtain n where c: "c = JNum n" by blast
      show ?thesis
        using S2 Some
        by (simp add: x split vec c IH pick_append Let_def)
    qed
  qed
qed

lemma pick_None: "pick xs b = None \<longleftrightarrow> xs = [] \<and> b = None"
  by (induction xs b rule: pick.induct) (auto simp: lt_best_def split: option.splits)

lemma pick_Some:
  "pick xs b = Some (c, p) \<Longrightarrow>
     ((c, p) \<in> set xs \<or> b = Some (c, p)) \<and> (\<forall>x \<in> set xs. c \<le> fst x) \<and>
     (\<forall>bc bp. b = Some (bc, bp) \<longrightarrow> c \<le> bc)"
proof (induction xs arbitrary: b)
  case Nil
  then show ?case by simp
next
  case (Cons x xs)
  obtain c0 p0 where x: "x = (c0, p0)" by (cases x) auto
  let ?b = "if lt_best c0 b then Some (c0, p0) else b"
  from Cons.prems have "pick xs ?b = Some (c, p)" by (simp add: x)
  from Cons.IH [OF this]
  have 1: "(c, p) \<in> set xs \<or> ?b = Some (c, p)" and 2: "\<forall>x \<in> set xs. c \<le> fst x"
    and 3: "\<forall>bc bp. ?b = Some (bc, bp) \<longrightarrow> c \<le> bc" by blast+
  show ?case
  proof (cases "lt_best c0 b")
    case True
    with 1 2 3 show ?thesis
      by (cases b) (auto simp: x lt_best_def)
  next
    case False
    then obtain bc bp where b: "b = Some (bc, bp)" and le: "bc \<le> c0"
      by (cases b) (auto simp: lt_best_def)
    with 1 2 3 False show ?thesis by (auto simp: x)
  qed
qed

lemma best_route_None: "best_route s dest = None \<longleftrightarrow> candidates s dest = []"
  by (simp add: best_route_def pick_None)

lemma best_route_Some:
  assumes "best_route s dest = Some (c, p)"
  shows "(c, p) \<in> set (candidates s dest) \<and> c = Min (fst ` set (candidates s dest))"
proof -
  from pick_Some [OF assms [unfolded best_route_def]]
  have m: "(c, p) \<in> set (candidates s dest)" and le: "\<forall>x \<in> set (candidates s dest). c \<le> fst x"
    by auto
  have "Min (fst ` set (candidates s dest)) = c"
  proof (rule Min_eqI)
    show "finite (fst ` set (candidates s dest))" by simp
    show "\<And>y. y \<in> fst ` set (candidates s dest) \<Longrightarrow> c \<le> y" using le by auto
    show "c \<in> fst ` set (candidates s dest)" using m by force
  qed
  with m show ?thesis by simp
qed

lemma best_route_eval:
  "readable_vectors s \<Longrightarrow> dest \<noteq> addr s \<Longrightarrow>
   via_best (neighbor_dvs s) (neighbors s) dest (direct_best (neighbors s) dest None) =
     Inr (best_route s dest)"
proof -
  assume "readable_vectors s" and d: "dest \<noteq> addr s"
  then have "readable_from (addr s) (neighbor_dvs s) (neighbors s)"
    by (simp add: readable_vectors_def)
  from via_best_pick [OF this d] show ?thesis
    by (simp add: direct_best_pick best_route_def candidates_def pick_append)
qed

lemma best_route_cong:
  "neighbors s' = neighbors s \<Longrightarrow> neighbor_dvs s' = neighbor_dvs s \<Longrightarrow>
   best_route s' d = best_route s d"
  by (simp add: best_route_def candidates_def)

lemma update_dests_Cons:
  assumes "readable_vectors s"
  shows "update_dests (dest # rest) s u = update_dests rest (visit s dest) (u \<or> touched s dest)"
proof (cases "dest = addr s")
  case True
  then show ?thesis by (simp add: visit_def touched_def)
next
  case False
  note ev = best_route_eval [OF assms False]
  show ?thesis
  proof (cases "best_route s dest")
    case None
    then show ?thesis
      using False ev by (cases "map_of (dv s) dest") (simp_all add: visit_def touched_def new_route_def)
  next
    case (Some bcp)
    obtain bc bp where bcp: "bcp = (bc, bp)" by (cases bcp) auto
    show ?thesis
    proof (cases "map_of (dv s) dest")
      case None
      then show ?thesis
        using False ev Some bcp by (simp add: visit_def touched_def new_route_def)
    next
      case S2: (Some cp)
      obtain c p where cp: "cp = (c, p)" by (cases cp) auto
      show ?thesis
        using False ev Some bcp S2 cp by (simp add: visit_def touched_def new_route_def)
    qed
  qed
qed

lemma visit_frame:
  "visit s dest = s\<lparr>dv := dv (visit s dest), forwarding_table := forwarding_table (visit s dest)\<rparr>"
  by (simp add: visit_def split: option.splits prod.splits)

lemma visit_fields:
  "neighbors (visit s dest) = neighbors s"
  "neighbor_dvs (visit s dest) = neighbor_dvs s"
  "addr (visit s dest) = addr s"
  by (simp_all add: visit_def split: option.splits prod.splits)

lemma visit_dv:
  "map_of (dv (visit s dest)) d =
     (if d = dest \<and> dest \<noteq> addr s then new_route s dest else map_of (dv s) d)"
  by (cases "map_of (dv s) dest"; cases "best_route s dest")
     (auto simp add: visit_def new_route_def update_conv delete_conv)

lemma visit_ft:
  "map_of (forwarding_table (visit s dest)) d =
     (if d = dest \<and> dest \<noteq> addr s then new_hop s dest else map_of (forwarding_table s) d)"
  by (cases "map_of (dv s) dest"; cases "best_route s dest")
     (auto simp add: visit_def new_hop_def update_conv delete_conv)

lemma visit_distinct:
  "distinct (map fst (dv s)) \<Longrightarrow> distinct (map fst (dv (visit s dest)))"
  by (simp add: visit_def distinct_update distinct_delete split: option.splits prod.splits)

lemma visit_best_route: "best_route (visit s dest) d = best_route s d"
  by (rule best_route_cong) (simp_all add: visit_fields)

lemma visit_new_route:
  "new_route (visit s dest) d = new_route s d"
proof (cases "d = dest \<and> dest \<noteq> addr s")
  case False
  then have "map_of (dv (visit s dest)) d = map_of (dv s) d" by (auto simp: visit_dv)
  then show ?thesis
    by (simp only: new_route_def visit_best_route)
next
  case True
  then show ?thesis
    by (cases "map_of (dv s) dest"; cases "best_route s dest")
       (auto simp: new_route_def visit_best_route visit_dv)
qed

lemma visit_new_hop:
  "new_hop (visit s dest) d = new_hop s d"
proof (cases "d = dest \<and> dest \<noteq> addr s")
  case False
  then have "map_of (dv (visit s dest)) d = map_of (dv s) d"
    "map_of (forwarding_table (visit s dest)) d = map_of (forwarding_table s) d"
    by (auto simp: visit_dv visit_ft)
  then show ?thesis
    by (simp only: new_hop_def visit_best_route)
next
  case True
  then show ?thesis
    by (cases "map_of (dv s) dest"; cases "best_route s dest")
       (auto simp: new_hop_def visit_best_route visit_dv visit_ft new_route_def)
qed

lemma visit_touched:
  "touched (visit s dest) d = (d \<noteq> dest \<and> touched s d)"
  by (auto simp: touched_def visit_new_route visit_dv visit_fields)

lemma visit_readable: "readable_vectors (visit s dest) = readable_vectors s"
  by (simp add: readable_vectors_def visit_fields)

lemma update_dests_wf:
  assumes "readable_vectors s"
  shows "\<exists>s' b. update_dests ds s u = (s', Inr b) \<and>
           s' = s\<lparr>dv := dv s', forwarding_table := forwarding_table s'\<rparr> \<and>
           (\<forall>d. map_of (dv s') d =
                 (if d \<in> set ds \<and> d \<noteq> addr s then new_route s d else map_of (dv s) d)) \<and>
           (\<forall>d. map_of (forwarding_table s') d =
                 (if d \<in> set ds \<and> d \<noteq> addr s then new_hop s d
                  else map_of (forwarding_table s) d)) \<and>
           (distinct (map fst (dv s)) \<longrightarrow> distinct (map fst (dv s'))) \<and>
           (b \<longleftrightarrow> u \<or> (\<exists>d \<in> set ds. touched s d))"
  using assms
proof (induction ds arbitrary: s u)
  case Nil
  then show ?case by simp
next
  case (Cons dest rest)
  let ?v = "visit s dest"
  have wfv: "readable_vectors ?v" using Cons.prems by (simp add: visit_readable)
  from Cons.IH [OF wfv, of "u \<or> touched s dest"] obtain s' b where
    r: "update_dests rest ?v (u \<or> touched s dest) = (s', Inr b)" and
    eq: "s' = ?v\<lparr>dv := dv s', forwarding_table := forwarding_table s'\<rparr>" and
    dvm: "\<And>d. map_of (dv s') d =
           (if d \<in> set rest \<and> d \<noteq> addr ?v then new_route ?v d else map_of (dv ?v) d)" and
    ftm: "\<And>d. map_of (forwarding_table s') d =
           (if d \<in> set rest \<and> d \<noteq> addr ?v then new_hop ?v d
            else map_of (forwarding_table ?v) d)" and
    di: "distinct (map fst (dv ?v)) \<longrightarrow> distinct (map fst (dv s'))" and
    b: "b \<longleftrightarrow> (u \<or> touched s dest) \<or> (\<exists>d \<in> set rest. touched ?v d)"
    by blast
  have 1: "update_dests (dest # rest) s u = (s', Inr b)"
    using r by (simp only: update_dests_Cons [OF Cons.prems])
  have 2: "s' = s\<lparr>dv := dv s', forwarding_table := forwarding_table s'\<rparr>"
    by (subst eq, subst visit_frame) simp
  have 3: "map_of (dv s') d =
            (if d \<in> set (dest # rest) \<and> d \<noteq> addr s then new_route s d else map_of (dv s) d)" for d
    by (simp add: dvm visit_fields visit_new_route visit_dv)
  have 4: "map_of (forwarding_table s') d =
            (if d \<in> set (dest # rest) \<and> d \<noteq> addr s then new_hop s d
             else map_of (forwarding_table s) d)" for d
    by (simp add: ftm visit_fields visit_new_hop visit_ft)
  have 5: "distinct (map fst (dv s)) \<longrightarrow> distinct (map fst (dv s'))"
    using di visit_distinct by blast
  have 6: "b \<longleftrightarrow> u \<or> (\<exists>d \<in> set (dest # rest). touched s d)"
    unfolding b by (auto simp: visit_touched)
  from 1 2 3 4 5 6 show ?case by blast
qed

lemma vector_keys_wf:
  "list_all (\<lambda>(m, j). case j of JObj kv \<Rightarrow> True | _ \<Rightarrow> False) ndvs \<Longrightarrow>
   \<exists>ks. vector_keys ndvs = Inr ks \<and>
        set ks = {d. \<exists>n kv. (n, JObj kv) \<in> set ndvs \<and> d \<in> fst ` set kv}"
proof (induction ndvs)
  case Nil
  then show ?case by simp
next
  case (Cons x ndvs)
  obtain n j where x: "x = (n, j)" by (cases x) auto
  from Cons.prems have "case j of JObj kv \<Rightarrow> True | _ \<Rightarrow> False"
    and wf: "list_all (\<lambda>(m, j). case j of JObj kv \<Rightarrow> True | _ \<Rightarrow> False) ndvs"
    by (simp_all add: x)
  then obtain kv where j: "j = JObj kv" by (cases j) auto
  from Cons.IH [OF wf] obtain ks where ks: "vector_keys ndvs = Inr ks"
    and s: "set ks = {d. \<exists>n kv. (n, JObj kv) \<in> set ndvs \<and> d \<in> fst ` set kv}" by blast
  have "vector_keys (x # ndvs) = Inr (map fst kv @ ks)" by (simp add: x j ks)
  moreover have "set (map fst kv @ ks) =
      {d. \<exists>n' kv'. (n', JObj kv') \<in> set (x # ndvs) \<and> d \<in> fst ` set kv'}"
    unfolding x j by (auto simp: s)
  ultimately show ?case by blast
qed

lemma all_destinations_wf:
  assumes "readable_vectors s"
  shows "\<exists>ds. all_destinations s = Inr ds \<and> set ds = known_dests s"
proof -
  from assms have "list_all (\<lambda>(m, j). case j of JObj kv \<Rightarrow> True | _ \<Rightarrow> False) (neighbor_dvs s)"
    by (simp add: readable_vectors_def)
  from vector_keys_wf [OF this] obtain ks where
    ks: "vector_keys (neighbor_dvs s) = Inr ks"
    and s: "set ks = {d. \<exists>n kv. (n, JObj kv) \<in> set (neighbor_dvs s) \<and> d \<in> fst ` set kv}"
    by blast
  show ?thesis
    by (simp add: all_destinations_def ks known_dests_def s)
qed

lemma update_distance_vector_wf:
  assumes "readable_vectors s" and "set_iteration hash_order"
  shows "\<exists>s' b. update_distance_vector s hash_order = (s', Inr b) \<and>
           s' = s\<lparr>dv := dv s', forwarding_table := forwarding_table s'\<rparr> \<and>
           (\<forall>d. map_of (dv s') d =
                 (if d \<in> known_dests s \<and> d \<noteq> addr s then new_route s d else map_of (dv s) d)) \<and>
           (\<forall>d. map_of (forwarding_table s') d =
                 (if d \<in> known_dests s \<and> d \<noteq> addr s then new_hop s d
                  else map_of (forwarding_table s) d)) \<and>
           (distinct (map fst (dv s)) \<longrightarrow> distinct (map fst (dv s'))) \<and>
           (b \<longleftrightarrow> (\<exists>d \<in> known_dests s. touched s d))"
proof -
  from all_destinations_wf [OF assms(1)] obtain ds where
    ds: "all_destinations s = Inr ds" and k: "set ds = known_dests s" by blast
  from assms(2) have "set (hash_order ds) = set ds" by (simp add: set_iteration_def)
  with update_dests_wf [OF assms(1), of "hash_order ds" False] show ?thesis
    by (simp add: update_distance_vector_def ds k)
qed

section \<open>The invariant of the distance vector\<close>

text \<open>
  C2 fails on the code. On the line \<open>A\<close> -- \<open>B\<close> -- \<open>C\<close>, \<open>A\<close> learns the route of cost 2
  to \<open>C\<close> from the vector of \<open>B\<close>. The link between \<open>B\<close> and \<open>C\<close> is removed, and the
  vector \<open>B\<close> sends then no longer lists \<open>C\<close>. From then on \<open>C\<close> is a key of no stored
  vector of \<open>A\<close> and no endpoint of a link of \<open>A\<close>, so the loop of
  \<open>update_distance_vector\<close> never visits it, and the branch that deletes a destination
  that can no longer be reached is never taken for it: after the arrival of the vector
  and two timer ticks, each of which recomputes, \<open>dv\<close> and the forwarding table of \<open>A\<close>
  still hold the route to \<open>C\<close> through \<open>B\<close>, although no candidate route to \<open>C\<close> is
  left.
\<close>

theorem withdrawn_destination_kept:
  "content pkt_B_up = Encoded (JObj [(''B'', JNum 0), (''A'', JNum 16), (''C'', JNum 1)]) \<and>
   content pkt_B_down = Encoded (JObj [(''B'', JNum 0), (''A'', JNum 16)]) \<and>
   map_of (dv line_A) ''C'' = Some (2, Some 1) \<and>
   neighbors line_A_after = [(1, (''B'', 1))] \<and>
   neighbor_dvs line_A_after = [(''B'', JObj [(''B'', JNum 0), (''A'', JNum 16)])] \<and>
   last_sent line_A_after = 20 \<and>
   candidates line_A_after ''C'' = [] \<and>
   spec_costs line_A_after ''C'' = [] \<and>
   map_of (dv line_A_after) ''C'' = Some (2, Some 1) \<and>
   map_of (forwarding_table line_A_after) ''C'' = Some 1 \<and>
   \<not> spec_dv_invariant line_A_after"
  by code_simp

text \<open>
  The recomputation also installs a route only when it is strictly cheaper than the
  entry, so a cost in \<open>dv\<close> never goes up. Router \<open>A\<close> of the example satisfies the
  invariant. \<open>B\<close> then advertises \<open>C\<close> at cost 9 instead of 1: the routes to \<open>C\<close> now cost
  10 through \<open>B\<close> and 6 through \<open>D\<close>, and after \<open>handle_packet\<close> the entry of \<open>C\<close> is still
  cost 2 through port 1.
\<close>

lemma raised_cost_not_installed:
  "spec_dv_invariant dv_A \<and>
   map_of (dv (fst (dv_handle_packet dv_A 1 pkt_B_C9 id))) ''C'' = Some (2, Some 1) \<and>
   spec_costs (fst (dv_handle_packet dv_A 1 pkt_B_C9 id)) ''C'' = [10, 6] \<and>
   \<not> spec_dv_invariant (fst (dv_handle_packet dv_A 1 pkt_B_C9 id))"
  by code_simp

text \<open>
  What \<open>update_distance_vector\<close> leaves in \<open>dv\<close>, whatever the order of the visits. A
  destination \<open>d\<close> other than the own address that is a link endpoint or a key of a stored
  vector is absent from \<open>dv\<close> when it has no candidate cost, and otherwise \<open>dv[d].cost\<close> is
  the smaller of the least candidate and the cost \<open>d\<close> had before. A destination that is
  neither is not visited and keeps the entry it had.
\<close>

lemma recomputed_costs:
  assumes "readable_vectors s" and "set_iteration hash_order"
  shows "\<exists>s' b. update_distance_vector s hash_order = (s', Inr b) \<and>
           (\<forall>d. if d \<in> known_dests s \<and> d \<noteq> addr s
                then map_option fst (map_of (dv s') d) =
                       (if cand_costs s d = {} then None
                        else Some (case map_of (dv s) d of
                                     None \<Rightarrow> Min (cand_costs s d)
                                   | Some (c, p) \<Rightarrow> min c (Min (cand_costs s d))))
                else map_of (dv s') d = map_of (dv s) d)"
proof -
  from update_distance_vector_wf [OF assms] obtain s' b where
    r: "update_distance_vector s hash_order = (s', Inr b)" and
    dvm: "\<And>d. map_of (dv s') d =
            (if d \<in> known_dests s \<and> d \<noteq> addr s then new_route s d else map_of (dv s) d)"
    by blast
  have nr: "map_option fst (new_route s d) =
              (if cand_costs s d = {} then None
               else Some (case map_of (dv s) d of
                            None \<Rightarrow> Min (cand_costs s d)
                          | Some (c, p) \<Rightarrow> min c (Min (cand_costs s d))))" for d
  proof (cases "best_route s d")
    case None
    then have "candidates s d = []" by (simp add: best_route_None)
    then show ?thesis
      by (simp add: new_route_def None cand_costs_def)
  next
    case (Some bcp)
    obtain bc bp where bcp: "bcp = (bc, bp)" by (cases bcp) auto
    from best_route_Some [OF Some [unfolded bcp]]
    have m: "(bc, bp) \<in> set (candidates s d)" and bc: "bc = Min (cand_costs s d)"
      unfolding cand_costs_def by blast+
    from m have ne: "cand_costs s d \<noteq> {}" by (auto simp: cand_costs_def)
    show ?thesis
    proof (cases "map_of (dv s) d")
      case None
      then show ?thesis using ne bc by (simp add: new_route_def Some bcp)
    next
      case S2: (Some cp)
      obtain c p where cp: "cp = (c, p)" by (cases cp) auto
      show ?thesis
        using ne bc by (cases "bc < c") (simp_all add: new_route_def Some bcp S2 cp min_def)
    qed
  qed
  show ?thesis
    apply (rule exI [of _ s'], rule exI [of _ b])
    using r by (simp add: dvm nr)
qed

section \<open>Removing a link of the distance vector router\<close>

lemma wf_vectors_delete: "wf_vectors ndvs \<Longrightarrow> wf_vectors (AList.delete n ndvs)"
  by (simp add: wf_vectors_def AList.delete_eq list_all_iff)





lemma send_ports:
  "set ps \<subseteq> fst ` set (neighbors s) \<Longrightarrow>
   map fst (concat (map (send_dv_to_neighbor s) ps)) = ps"
proof (induction ps)
  case Nil
  then show ?case by simp
next
  case (Cons p ps)
  then have "p \<in> fst ` set (neighbors s)" by simp
  then obtain v where "map_of (neighbors s) p = Some v"
    by (cases "map_of (neighbors s) p") (auto simp: map_of_eq_None_iff)
  then have "map fst (send_dv_to_neighbor s p) = [p]"
    by (cases v) (simp add: send_dv_to_neighbor_def)
  with Cons show ?case by simp
qed

lemma broadcast_ports: "map fst (snd (broadcast_dv s)) = map fst (neighbors s)"
proof -
  have "set (map fst (neighbors s)) \<subseteq> fst ` set (neighbors (fst (broadcast_dv s)))"
    by (simp add: broadcast_dv_fields)
  from send_ports [OF this] show ?thesis by (simp add: broadcast_dv_sends)
qed









section \<open>A vector arrives at the distance vector router\<close>

lemma wf_vectors_update:
  "wf_vectors ndvs \<Longrightarrow> wf_vector j \<Longrightarrow> wf_vectors (AList.update n j ndvs)"
  by (induction ndvs) (auto simp: wf_vectors_def)

lemma update_distance_vector_changed:
  assumes "readable_vectors s" and "set_iteration hash_order"
    and "update_distance_vector s hash_order = (s', Inr b)"
  shows "b \<longleftrightarrow> map_of (dv s') \<noteq> map_of (dv s)"
proof -
  from update_distance_vector_wf [OF assms(1,2)] assms(3) have
    dvm: "\<And>d. map_of (dv s') d =
            (if d \<in> known_dests s \<and> d \<noteq> addr s then new_route s d else map_of (dv s) d)"
    and b: "b \<longleftrightarrow> (\<exists>d \<in> known_dests s. touched s d)"
    by auto
  have "map_of (dv s') \<noteq> map_of (dv s) \<longleftrightarrow> (\<exists>d. map_of (dv s') d \<noteq> map_of (dv s) d)"
    by auto
  also have "\<dots> \<longleftrightarrow> (\<exists>d \<in> known_dests s. touched s d)"
    by (auto simp: dvm touched_def)
  finally show ?thesis using b by simp
qed

lemma dv_differs_wf:
  assumes "wf_vector (JObj old)" and "wf_vector (JObj its)"
  shows "dv_differs (JObj old) its = Inr (\<exists>x \<in> set its. map_of old (fst x) \<noteq> Some (snd x))"
  using assms(2)
proof (induction its)
  case Nil
  then show ?case by simp
next
  case (Cons x its)
  obtain d c where x: "x = (d, c)" by (cases x) auto
  from Cons.prems obtain m where c: "c = JNum m" and wf: "wf_vector (JObj its)"
    by (cases c) (auto simp: wf_vector_def x)
  show ?case
  proof (cases "map_of old d")
    case None
    then show ?thesis by (simp add: x)
  next
    case (Some v)
    with assms(1) obtain k where v: "v = JNum k" using wf_vector_lookup by blast
    show ?thesis
      using Some by (simp add: x v c Cons.IH [OF wf])
  qed
qed

lemma dv_changed_wf:
  assumes "wf_vectors (neighbor_dvs s)" and "wf_vector (JObj its)"
  shows "dv_changed s n (JObj its) = Inr (counts_as_changed s n its)"
proof (cases "map_of (neighbor_dvs s) n")
  case None
  then show ?thesis by (simp add: dv_changed_def counts_as_changed_def)
next
  case (Some j)
  with assms(1) have "wf_vector j" by (rule wf_vectors_lookup)
  then obtain old where j: "j = JObj old" by (cases j) (auto simp: wf_vector_def)
  with \<open>wf_vector j\<close> have "wf_vector (JObj old)" by simp
  from dv_differs_wf [OF this assms(2)] show ?thesis
    by (simp add: dv_changed_def counts_as_changed_def Some j)
qed

text \<open>
  C6 fails on the code. Router \<open>dv_A16\<close> is what two links and the vectors of \<open>B\<close> and \<open>D\<close>
  make of the fresh router \<open>A\<close>. \<open>B\<close> then withdraws \<open>C\<close> by leaving it out of its vector.
  The loop that looks for a change runs over the destinations of the received vector
  only, so it finds none: \<open>handle_packet\<close> stores the vector and stops. It does not
  recompute, \<open>dv\<close> keeps the route to \<open>C\<close> through \<open>B\<close>, and nothing is sent. The
  recomputation the claim describes drops \<open>C\<close>, which changes the local vector, and
  broadcasts on both ports: that is what the handler as C6 words it does, and what the
  code itself does at the next timer tick.
\<close>

theorem dv_packet_without_recomputation:
  "dv_A16 =
     fst (dv_handle_packet
            (fst (dv_handle_packet
                    (fst (dv_handle_new_link
                            (fst (dv_handle_new_link (dv_init ''A'' 10) 1 ''B'' 1 id)) 2 ''D'' 1 id))
                    1 pkt_B_C1 id))
            2 pkt_D_C16 id) \<and>
   dv_handle_packet dv_A16 1 pkt_B_only id =
     (dv_A16\<lparr>neighbor_dvs := [(''B'', JObj [(''B'', JNum 0)]),
                                (''D'', JObj [(''D'', JNum 0), (''C'', JNum 16)])]\<rparr>, [], None) \<and>
   map_of (dv (fst (dv_handle_packet dv_A16 1 pkt_B_only id))) ''C'' = Some (2, Some 1) \<and>
   candidates (fst (dv_handle_packet dv_A16 1 pkt_B_only id)) ''C'' = [] \<and>
   map_of (dv (fst (spec_dv_handle_routing dv_A16 ''B'' (JObj [(''B'', JNum 0)]) id))) ''C'' = None \<and>
   map fst (fst (snd (spec_dv_handle_routing dv_A16 ''B'' (JObj [(''B'', JNum 0)]) id))) = [1, 2] \<and>
   dv_handle_packet dv_A16 1 pkt_B_only id \<noteq>
     spec_dv_handle_routing dv_A16 ''B'' (JObj [(''B'', JNum 0)]) id \<and>
   map_of (dv (fst (dv_handle_time (fst (dv_handle_packet dv_A16 1 pkt_B_only id)) 10 id))) ''C'' = None \<and>
   map fst (fst (snd (dv_handle_time (fst (dv_handle_packet dv_A16 1 pkt_B_only id)) 10 id))) = [1, 2]"
  by code_simp

text \<open>
  What the code does with a routing packet that arrives on a port of the neighbor table
  and carries a well-formed vector, on a router whose stored vectors are well formed:
  it stores the vector as the neighbor's entry in every case and raises nothing. Only if
  the neighbor had no stored vector, or a destination of the received vector is missing
  from the stored one or has another cost there, does it recompute, and it then
  broadcasts one packet to every neighbor if and only if the recomputation changed the
  local vector.
\<close>

lemma dv_handle_routing_packet:
  assumes "map_of (neighbors s) port = Some (n, c)"
    and "kind pkt = ROUTING" and "content pkt = Encoded (JObj its)"
    and "wf_vector (JObj its)" and "wf_vectors (neighbor_dvs s)" and "set_iteration hash_order"
  shows "\<exists>s' out.
           dv_handle_packet s port pkt hash_order = (s', out, None) \<and>
           neighbor_dvs s' = AList.update n (JObj its) (neighbor_dvs s) \<and>
           (if counts_as_changed s n its
            then \<exists>s2 b.
                   update_distance_vector
                     (s\<lparr>neighbor_dvs := AList.update n (JObj its) (neighbor_dvs s)\<rparr>) hash_order
                     = (s2, Inr b) \<and>
                   (b \<longleftrightarrow> map_of (dv s2) \<noteq> map_of (dv s)) \<and>
                   (if b then s' = fst (broadcast_dv s2) \<and> out = snd (broadcast_dv s2) \<and>
                              map fst out = map fst (neighbors s)
                    else s' = s2 \<and> out = [])
            else s' = s\<lparr>neighbor_dvs := AList.update n (JObj its) (neighbor_dvs s)\<rparr> \<and> out = [])"
proof -
  let ?s1 = "s\<lparr>neighbor_dvs := AList.update n (JObj its) (neighbor_dvs s)\<rparr>"
  have "wf_vectors (neighbor_dvs ?s1)"
    using assms(4,5) by (simp add: wf_vectors_update)
  then have wf1: "readable_vectors ?s1" by (rule wf_vectors_readable)
  from update_distance_vector_wf [OF wf1 assms(6)] obtain s2 b where
    r: "update_distance_vector ?s1 hash_order = (s2, Inr b)" and
    fr: "s2 = ?s1\<lparr>dv := dv s2, forwarding_table := forwarding_table s2\<rparr>"
    by blast
  have nd: "neighbor_dvs s2 = AList.update n (JObj its) (neighbor_dvs s)"
    and nb: "neighbors s2 = neighbors s"
    by (subst fr, simp)+
  from update_distance_vector_changed [OF wf1 assms(6) r]
  have b: "b \<longleftrightarrow> map_of (dv s2) \<noteq> map_of (dv s)" by simp
  note ch = dv_changed_wf [OF assms(5,4), of n]
  have nt: "\<not> is_traceroute pkt" using assms(2) by (simp add: is_traceroute_def)
  show ?thesis
  proof (cases "counts_as_changed s n its")
    case False
    have "dv_handle_packet s port pkt hash_order = (?s1, [], None)"
      using nt assms(1,3) ch False by (simp add: dv_handle_packet_def)
    with False show ?thesis by simp
  next
    case True
    show ?thesis
    proof (cases b)
      case T: True
      have "dv_handle_packet s port pkt hash_order =
              (fst (broadcast_dv s2), snd (broadcast_dv s2), None)"
        using nt assms(1,3) ch True r T by (simp add: dv_handle_packet_def case_prod_unfold)
      with r b True T show ?thesis
        by (auto simp add: broadcast_dv_fields broadcast_ports nd nb)
    next
      case F: False
      have "dv_handle_packet s port pkt hash_order = (s2, [], None)"
        using nt assms(1,3) ch True r F by (simp add: dv_handle_packet_def)
      with r b True F nd show ?thesis by auto
    qed
  qed
qed

section \<open>Malformed routing packets\<close>

text \<open>
  A routing packet whose content \<open>json.loads\<close> cannot parse is dropped by both routers,
  and \<open>handle_packet\<close> of the distance vector router never raises.
\<close>

lemma unparseable_packet_dropped:
  assumes "kind pkt = ROUTING" and "content pkt = Unparseable t"
  shows "dv_handle_packet d port pkt hash_order = (d, [], None)"
    and "ls_handle_packet l port pkt = Some (l, [], None)"
  using assms
  by (simp_all add: dv_handle_packet_def ls_handle_packet_def is_traceroute_def
      split: option.splits prod.splits)

lemma dv_handle_packet_never_raises: "snd (snd (dv_handle_packet d port pkt hash_order)) = None"
  by (simp add: dv_handle_packet_def Let_def
      split: option.splits prod.splits content.splits sum.splits bool.splits)

text \<open>
  C5 fails on the code. The exception a malformed content raises is caught, but after
  the router has been changed. The distance vector router stores the array as the vector
  of \<open>B\<close>, and the next timer tick raises \<open>AttributeError\<close> to the simulator. The link state
  router records the packet, stores 5 as the adjacency list of \<open>C\<close>, and is left with an
  empty forwarding table.
\<close>

theorem malformed_packet_changes_router:
  "neighbor_dvs dv_fresh = [] \<and>
   dv_handle_packet dv_fresh 1 pkt_array hash_order =
     (dv_fresh\<lparr>neighbor_dvs := [(''B'', JArr [JNum 1, JNum 2])]\<rparr>, [], None) \<and>
   snd (snd (dv_handle_time (fst (dv_handle_packet dv_fresh 1 pkt_array hash_order)) 10 hash_order')) =
     Some AttributeError \<and>
   ls_handle_packet ls_A 1 pkt_links5 =
     Some (ls_A\<lparr>forwarding_table := [],
                 ls_db := ls_db ls_A @ [(JStr ''C'', JNum 5)],
                 seq_nums := seq_nums ls_A @ [(JStr ''C'', JNum 1)],
                 packet_history := {(JStr ''B'', JNum 1), (JStr ''C'', JNum 1)}\<rparr>, [], None) \<and>
   forwarding_table ls_A = [(''B'', 1), (''D'', 2), (''C'', 1)]"
proof -
  have f: "dv_fresh =
     \<lparr>addr = ''A'', heartbeat_time = 10, last_sent = 0, neighbors = [(1, (''B'', 1))],
      forwarding_table = [(''B'', 1)], dv = [(''A'', (0, None)), (''B'', (1, Some 1))],
      neighbor_dvs = []\<rparr>"
    by code_simp
  have 1: "neighbor_dvs dv_fresh = []" by (simp add: f)
  have 2: "dv_handle_packet dv_fresh 1 pkt_array hash_order =
     (dv_fresh\<lparr>neighbor_dvs := [(''B'', JArr [JNum 1, JNum 2])]\<rparr>, [], None)"
    by (simp add: f dv_handle_packet_def pkt_array_def is_traceroute_def dv_changed_def
        update_distance_vector_def all_destinations_def)
  have 3: "snd (snd (dv_handle_time (dv_fresh\<lparr>neighbor_dvs := [(''B'', JArr [JNum 1, JNum 2])]\<rparr>)
                       10 hash_order')) = Some AttributeError"
    by (simp add: f dv_handle_time_def update_distance_vector_def all_destinations_def)
  have 4: "ls_handle_packet ls_A 1 pkt_links5 =
     Some (ls_A\<lparr>forwarding_table := [],
                 ls_db := ls_db ls_A @ [(JStr ''C'', JNum 5)],
                 seq_nums := seq_nums ls_A @ [(JStr ''C'', JNum 1)],
                 packet_history := {(JStr ''B'', JNum 1), (JStr ''C'', JNum 1)}\<rparr>, [], None)"
    by code_simp
  have 5: "forwarding_table ls_A = [(''B'', 1), (''D'', 2), (''C'', 1)]" by (simp add: ls_A_def)
  from 1 2 3 4 5 show ?thesis by simp
qed

section \<open>The wall clock of the link state router\<close>

text \<open>
  The timer handler overwrites the clock reading with \<open>time_ms\<close>, so what it returns does
  not depend on the wall clock.
\<close>

lemma ls_handle_time_ignores_clock: "ls_handle_time s time_ms now = ls_handle_time s time_ms now'"
  by (simp add: ls_handle_time_def broadcast_link_state_def split: option.splits)

text \<open>
  C8 fails on the code. \<open>handle_new_link\<close> of the link state router, run twice on the
  same router with the same arguments, leaves two different routers when the wall clock
  reads 1000 and 2000: \<open>broadcast_link_state\<close> stores the reading in \<open>last_sent\<close>. The
  difference shows in what is sent afterwards: the timer tick at 1500 floods the record
  from the first router and sends nothing from the second.
\<close>

theorem ls_new_link_depends_on_clock:
  "map_option (\<lambda>r. last_sent (fst r)) (ls_handle_new_link (ls_init ''A'' 10) 1 ''B'' 1 1000) = Some 1000 \<and>
   map_option (\<lambda>r. last_sent (fst r)) (ls_handle_new_link (ls_init ''A'' 10) 1 ''B'' 1 2000) = Some 2000 \<and>
   ls_handle_new_link (ls_init ''A'' 10) 1 ''B'' 1 1000 \<noteq> ls_handle_new_link (ls_init ''A'' 10) 1 ''B'' 1 2000 \<and>
   map fst (fst (snd (ls_handle_time
      (fst (the (ls_handle_new_link (ls_init ''A'' 10) 1 ''B'' 1 1000))) 1500 0))) = [1] \<and>
   fst (snd (ls_handle_time
      (fst (the (ls_handle_new_link (ls_init ''A'' 10) 1 ''B'' 1 2000))) 1500 0)) = []"
  by code_simp

section \<open>Shortest paths in the link state database\<close>

lemma finite_nodes: "finite (nodes self db)"
  unfolding nodes_def by (auto split: json.splits)

lemma edge_nodes: "edge db u v c \<Longrightarrow> v \<in> nodes self db"
proof -
  assume "edge db u v c"
  then obtain es where m: "map_of db (JStr u) = Some (JObj es)" and v: "(v, JNum c) \<in> set es"
    by (auto simp: edge_def)
  from m have "(JStr u, JObj es) \<in> set db" by (rule map_of_SomeD)
  with v show ?thesis unfolding nodes_def by force
qed

lemma wf_db_lookup: "wf_db db \<Longrightarrow> map_of db k = Some j \<Longrightarrow> wf_links j"
  by (induction db) (auto simp: wf_db_def split: if_splits)

lemma wf_links_edge: "wf_links (JObj es) \<Longrightarrow> (v, c) \<in> set es \<Longrightarrow> \<exists>n. c = JNum n \<and> 0 \<le> n"
  by (auto simp: wf_links_def list_all_iff split: json.splits)

lemma edge_nonneg: "wf_db db \<Longrightarrow> edge db u v c \<Longrightarrow> 0 \<le> c"
  using wf_db_lookup wf_links_edge by (fastforce simp: edge_def)

lemma walk_nonneg:
  assumes "wf_db db" and "walk db u v w"
  shows "0 \<le> w"
  using assms(2)
proof (induction rule: walk.induct)
  case walk_refl
  show ?case by simp
next
  case (walk_step v w x c)
  from edge_nonneg [OF assms(1) walk_step.hyps(2)] walk_step.IH show ?case by simp
qed

lemma walk_trans_edge:
  assumes "edge db u v c" and "walk db v x w"
  shows "walk db u x (c + w)"
  using assms(2)
proof (induction rule: walk.induct)
  case walk_refl
  from walk_step [OF walk.walk_refl assms(1)] show ?case by simp
next
  case (walk_step y w x' c')
  from walk.walk_step [OF walk_step.IH walk_step.hyps(2)]
  show ?case by (simp add: add.assoc)
qed

lemma hop_walk: "hop db self nbrs p v w \<Longrightarrow> walk db self v w"
  by (auto simp: hop_def intro: walk_trans_edge)

lemma hop_step: "hop db self nbrs p u w \<Longrightarrow> edge db u v c \<Longrightarrow> hop db self nbrs p v (w + c)"
  unfolding hop_def
  by (metis add.assoc walk_step)

lemma port_of_neighbor_fold:
  "fold (\<lambda>(port, (endpoint, c)) r. if endpoint = v then Some port else r) nbrs r0 = Some p \<Longrightarrow>
   (\<exists>c. (p, (v, c)) \<in> set nbrs) \<or> r0 = Some p"
proof (induction nbrs arbitrary: r0)
  case Nil
  then show ?case by simp
next
  case (Cons x nbrs)
  obtain a e b where x: "x = (a, (e, b))" by (cases x) auto
  let ?r = "if e = v then Some a else r0"
  from Cons.prems have "fold (\<lambda>(port, (endpoint, c)) r. if endpoint = v then Some port else r) nbrs ?r = Some p"
    by (simp add: x)
  from Cons.IH [OF this] show ?case
    by (auto simp: x split: if_splits)
qed

lemma port_of_neighbor_fold_ex:
  "(p, (v, c)) \<in> set nbrs \<Longrightarrow>
   \<exists>q. fold (\<lambda>(port, (endpoint, c)) r. if endpoint = v then Some port else r) nbrs r0 = Some q"
proof (induction nbrs arbitrary: r0)
  case Nil
  then show ?case by simp
next
  case (Cons x nbrs)
  show ?case
  proof (cases "(p, (v, c)) \<in> set nbrs")
    case True
    from Cons.IH [OF this] show ?thesis by simp
  next
    case False
    with Cons.prems have x: "x = (p, (v, c))" by simp
    have "\<exists>q. fold (\<lambda>(port, (endpoint, c)) r. if endpoint = v then Some port else r) nbrs (Some p) = Some q"
      by (induction nbrs arbitrary: p) (auto split: if_splits)
    then show ?thesis by (simp add: x)
  qed
qed

lemma port_of_neighbor_Some:
  "port_of_neighbor nbrs v = Some p \<Longrightarrow> \<exists>c. (p, (v, c)) \<in> set nbrs"
  unfolding port_of_neighbor_def using port_of_neighbor_fold by fastforce

lemma port_of_neighbor_ex:
  "(p, (v, c)) \<in> set nbrs \<Longrightarrow> \<exists>q. port_of_neighbor nbrs v = Some q"
  unfolding port_of_neighbor_def by (rule port_of_neighbor_fold_ex)

lemma relax_Cons:
  "relax self nbrs u du ((v, JNum c) # es) st = relax self nbrs u du es (relax1 self nbrs u du v c st)"
  by (simp add: relax1_def Let_def)

lemma progress_refl: "progress V st st"
  by (simp add: progress_def)

lemma progress_trans: "progress V a b \<Longrightarrow> progress V b c \<Longrightarrow> progress V a c"
  unfolding progress_def by auto

lemma sum_update_less:
  "distinct (map fst xs) \<Longrightarrow> map_of xs k = Some d \<Longrightarrow> f (k, d') < (f (k, d) :: nat) \<Longrightarrow>
   sum_list (map f (AList.update k d' xs)) < sum_list (map f xs)"
proof (induction xs)
  case Nil
  then show ?case by simp
next
  case (Cons x xs)
  show ?case
  proof (cases "fst x = k")
    case True
    with Cons.prems show ?thesis by (cases x) auto
  next
    case False
    with Cons.prems Cons.IH show ?thesis by (cases x) auto
  qed
qed

lemma card_diff_insert_less:
  "finite V \<Longrightarrow> v \<in> V \<Longrightarrow> v \<notin> A \<Longrightarrow> card (V - insert v A) < card (V - A)"
  by (metis Diff_iff Diff_insert card_Diff1_less finite_Diff)

lemma hops_known_edge:
  assumes "hops_known self nbrs db" and "edge db self v c"
  shows "\<exists>p c'. (p, (v, c')) \<in> set nbrs"
proof -
  from assms(2) obtain es where m: "map_of db (JStr self) = Some (JObj es)"
    and v: "(v, JNum c) \<in> set es" by (auto simp: edge_def)
  from assms(1) m have "list_all (\<lambda>(v, c). v \<in> (\<lambda>(p, (n, c')). n) ` set nbrs) es"
    by (simp add: hops_known_def)
  with v have "v \<in> (\<lambda>(p, (n, c')). n) ` set nbrs" by (auto simp: list_all_iff)
  then show ?thesis by auto
qed

lemma set_first_hop_self:
  assumes "(p, (v, c')) \<in> set nbrs"
  shows "\<exists>q c''. (q, (v, c'')) \<in> set nbrs \<and>
           set_first_hop self nbrs self v fh = AList.update v q fh"
proof -
  from port_of_neighbor_ex [OF assms] obtain q where q: "port_of_neighbor nbrs v = Some q" by blast
  from port_of_neighbor_Some [OF q] obtain c'' where "(q, (v, c'')) \<in> set nbrs" by blast
  with q show ?thesis by (auto simp: set_first_hop_def)
qed

lemma relax1_unchanged:
  assumes "inv_mid self nbrs db u du S st"
    and "\<not> (case map_of (distances st) v of None \<Rightarrow> True | Some d \<Rightarrow> du + c < d)"
  shows "relax1 self nbrs u du v c st = st"
    and "inv_mid self nbrs db u du (insert (v, c) S) st"
proof -
  show "relax1 self nbrs u du v c st = st" using assms(2) by (simp add: relax1_def)
  from assms(2) obtain dv where "map_of (distances st) v = Some dv" "dv \<le> du + c"
    by (cases "map_of (distances st) v") auto
  with assms(1) show "inv_mid self nbrs db u du (insert (v, c) S) st"
    by (auto simp: inv_mid_def)
qed

lemma relax1_improved:
  assumes wf: "wf_db db" and mid: "inv_mid self nbrs db u du S st" and e: "edge db u v c"
    and imp: "case map_of (distances st) v of None \<Rightarrow> True | Some d \<Rightarrow> du + c < d"
  shows "inv_mid self nbrs db u du (insert (v, c) S) (relax1 self nbrs u du v c st)"
    and "progress (nodes self db) st (relax1 self nbrs u du v c st)"
proof -
  let ?D = "map_of (distances st)" and ?F = "map_of (first_hops st)"
  let ?V = "nodes self db" and ?nd = "du + c"
  define st1 where "st1 = \<lparr>distances = AList.update v ?nd (distances st),
               first_hops = set_first_hop self nbrs u v (first_hops st),
               pq = heappush (pq st) (?nd, v)\<rparr>"
  let ?st1 = st1
  let ?D1 = "map_of (distances ?st1)" and ?F1 = "map_of (first_hops ?st1)"
  have r1: "relax1 self nbrs u du v c st = ?st1" using imp by (simp add: relax1_def st1_def)
  have fd: "distances st1 = AList.update v ?nd (distances st)"
    and ff: "first_hops st1 = set_first_hop self nbrs u v (first_hops st)"
    and fq: "pq st1 = (?nd, v) # pq st"
    by (simp_all add: st1_def heappush_def)
  from mid have base: "inv_base self nbrs db st" and se: "settled db {u} st"
    and Du: "?D u = Some du"
    and Srel: "\<And>v' c'. (v', c') \<in> S \<Longrightarrow> \<exists>dv. ?D v' = Some dv \<and> dv \<le> du + c'"
    by (auto simp: inv_mid_def)
  from base have invt: "inv_t ?V st" and Dself: "?D self = Some 0"
    and pqc: "\<And>d x. (d, x) \<in> set (pq st) \<Longrightarrow> \<exists>dx. ?D x = Some dx \<and> dx \<le> d"
    and hops: "hops_known self nbrs db \<Longrightarrow> inv_hops self nbrs db st"
    by (auto simp: inv_base_def)
  from invt have dom: "fst ` set (distances st) \<subseteq> ?V" and dist: "distinct (map fst (distances st))"
    and nonneg: "\<And>x d. ?D x = Some d \<Longrightarrow> 0 \<le> d"
    and pqnn: "\<And>d x. (d, x) \<in> set (pq st) \<Longrightarrow> 0 \<le> d"
    by (auto simp: inv_t_def)
  have c0: "0 \<le> c" using edge_nonneg [OF wf e] .
  have du0: "0 \<le> du" using nonneg [OF Du] .
  have vV: "v \<in> ?V" using edge_nodes [OF e] .
  have vself: "v \<noteq> self" using imp Dself c0 du0 by auto
  have vu: "v \<noteq> u" using imp Du c0 by auto
  have D1: "?D1 = ?D(v \<mapsto> ?nd)" by (simp add: fd update_conv')
  have dec: "\<exists>dx'. ?D1 x = Some dx' \<and> dx' \<le> dx" if "?D x = Some dx" for x dx
    using that imp by (cases "x = v") (auto simp: D1)
  \<comment> \<open>the termination part\<close>
  have t1: "fst ` set (distances ?st1) \<subseteq> ?V" using dom vV by (simp add: fd dom_update)
  have t2: "distinct (map fst (distances ?st1))" using dist by (simp add: fd distinct_update)
  have t3: "0 \<le> d" if "?D1 x = Some d" for x d
    using that nonneg c0 du0 by (cases "x = v") (auto simp: D1)
  have t4: "0 \<le> d" if "(d, x) \<in> set (pq ?st1)" for d x
    using that pqnn c0 du0 by (auto simp: fq)
  have invt1: "inv_t ?V ?st1"
    unfolding inv_t_def using t1 t2 t3 t4 by blast
  have b2: "?D1 self = Some 0" using Dself vself by (simp add: D1)
  have b3: "\<exists>dx. ?D1 x = Some dx \<and> dx \<le> d" if "(d, x) \<in> set (pq ?st1)" for d x
  proof (cases "(d, x) = (?nd, v)")
    case True
    then show ?thesis by (simp add: D1)
  next
    case False
    with that have "(d, x) \<in> set (pq st)" by (auto simp: fq)
    from pqc [OF this] obtain dx where "?D x = Some dx" "dx \<le> d" by blast
    with dec [of x dx] show ?thesis by force
  qed
  have b4: "inv_hops self nbrs db ?st1" if hk: "hops_known self nbrs db"
  proof -
    from hops [OF hk] have
      h1: "\<And>x d. ?D x = Some d \<Longrightarrow> x \<noteq> self \<Longrightarrow> \<exists>p. ?F x = Some p \<and> hop db self nbrs p x d"
      and h2: "\<And>x p. ?F x = Some p \<Longrightarrow> x \<noteq> self \<and> ?D x \<noteq> None"
      by (auto simp: inv_hops_def)
    have "\<exists>q. set_first_hop self nbrs u v (first_hops st) = AList.update v q (first_hops st) \<and>
              hop db self nbrs q v ?nd"
    proof (cases "u = self")
      case True
      with Du Dself have du: "du = 0" by simp
      from e True have es: "edge db self v c" by simp
      from hops_known_edge [OF hk es] obtain p c' where "(p, (v, c')) \<in> set nbrs" by blast
      from set_first_hop_self [OF this, of self "first_hops st"] obtain q c'' where
        q: "(q, (v, c'')) \<in> set nbrs"
        and s: "set_first_hop self nbrs self v (first_hops st) = AList.update v q (first_hops st)"
        by blast
      have "hop db self nbrs q v c" unfolding hop_def
        using es q walk_refl [of db v] by force
      with s True du show ?thesis by auto
    next
      case False
      from h1 [OF Du False] obtain p where p: "?F u = Some p" and h: "hop db self nbrs p u du"
        by blast
      from hop_step [OF h e] p False show ?thesis by (auto simp: set_first_hop_def)
    qed
    then obtain q where
      s: "set_first_hop self nbrs u v (first_hops st) = AList.update v q (first_hops st)"
      and hq: "hop db self nbrs q v ?nd" by blast
    have F1: "?F1 = ?F(v \<mapsto> q)" by (simp add: ff s update_conv')
    have a: "\<exists>p. ?F1 x = Some p \<and> hop db self nbrs p x d" if "?D1 x = Some d" "x \<noteq> self" for x d
      using that h1 [of x d] hq by (cases "x = v") (auto simp: D1 F1)
    have b: "x \<noteq> self \<and> ?D1 x \<noteq> None" if "?F1 x = Some p" for x p
      using that h2 [of x p] vself by (cases "x = v") (auto simp: D1 F1)
    show ?thesis unfolding inv_hops_def using a b by blast
  qed
  have base1: "inv_base self nbrs db ?st1"
    unfolding inv_base_def using invt1 b2 b3 b4 by blast
  have closed_mono: "closed db ?D1 x dx" if "closed db ?D x dx" for x dx
    unfolding closed_def
  proof (intro allI impI)
    fix y cy assume "edge db x y cy"
    with that obtain dy where "?D y = Some dy" "dy \<le> dx + cy" by (auto simp: closed_def)
    with dec [of y dy] show "\<exists>dv. ?D1 y = Some dv \<and> dv \<le> dx + cy" by force
  qed
  have se1: "settled db {u} ?st1"
    unfolding settled_def
  proof (intro allI impI)
    fix x dx assume a: "?D1 x = Some dx \<and> x \<notin> {u}"
    show "(dx, x) \<in> set (pq ?st1) \<or> closed db ?D1 x dx"
    proof (cases "x = v")
      case True
      with a have "dx = ?nd" by (simp add: D1)
      with True show ?thesis by (simp add: fq)
    next
      case False
      with a have "?D x = Some dx" "x \<notin> {u}" by (auto simp: D1)
      with se have "(dx, x) \<in> set (pq st) \<or> closed db ?D x dx" by (auto simp: settled_def)
      with closed_mono show ?thesis by (auto simp: fq)
    qed
  qed
  have Du1: "?D1 u = Some du" using Du vu by (simp add: D1)
  have S1: "\<exists>dv. ?D1 v' = Some dv \<and> dv \<le> du + c'" if "(v', c') \<in> insert (v, c) S" for v' c'
  proof (cases "(v', c') = (v, c)")
    case True
    then show ?thesis by (simp add: D1)
  next
    case False
    with that have "(v', c') \<in> S" by auto
    from Srel [OF this] obtain dv where "?D v' = Some dv" "dv \<le> du + c'" by blast
    with dec [of v' dv] show ?thesis by force
  qed
  show "inv_mid self nbrs db u du (insert (v, c) S) (relax1 self nbrs u du v c st)"
    unfolding r1 inv_mid_def using base1 se1 Du1 S1 by blast
  show "progress (nodes self db) st (relax1 self nbrs u du v c st)"
  proof (cases "?D v")
    case None
    then have "v \<notin> fst ` set (distances st)" by (simp add: map_of_eq_None_iff)
    from card_diff_insert_less [OF finite_nodes vV this]
    have "fst (m12 ?V ?st1) < fst (m12 ?V st)" by (simp add: m12_def fd dom_update)
    then show ?thesis unfolding r1 progress_def by blast
  next
    case (Some dv)
    with imp have lt: "?nd < dv" by simp
    from Some have "v \<in> fst ` set (distances st)"
      by (metis map_of_eq_None_iff option.distinct(1))
    then have 1: "fst (m12 ?V ?st1) = fst (m12 ?V st)"
      by (simp add: m12_def fd dom_update insert_absorb)
    have "nat ?nd < nat dv" using lt c0 du0 by simp
    then have "(\<lambda>(v, d). nat d) (v, ?nd) < (\<lambda>(v, d). nat d) (v, dv)" by simp
    from sum_update_less [OF dist Some this]
    have 2: "snd (m12 ?V ?st1) < snd (m12 ?V st)" by (simp add: m12_def fd)
    from 1 2 show ?thesis unfolding r1 progress_def by blast
  qed
qed

lemma relax_inv:
  assumes wf: "wf_db db"
    and es: "\<And>v j. (v, j) \<in> set es \<Longrightarrow> \<exists>c. j = JNum c \<and> edge db u v c"
    and mid: "inv_mid self nbrs db u du S st"
  shows "\<exists>st'. relax self nbrs u du es st = Inr st' \<and>
           inv_mid self nbrs db u du (S \<union> {(v, c). (v, JNum c) \<in> set es}) st' \<and>
           progress (nodes self db) st st'"
  using es mid
proof (induction es arbitrary: st S)
  case Nil
  then show ?case by (simp add: progress_refl)
next
  case (Cons x es)
  obtain v j where x: "x = (v, j)" by (cases x) auto
  from Cons.prems(1) [of v j] obtain c where j: "j = JNum c" and e: "edge db u v c"
    by (auto simp: x)
  let ?st1 = "relax1 self nbrs u du v c st"
  have step: "inv_mid self nbrs db u du (insert (v, c) S) ?st1 \<and> progress (nodes self db) st ?st1"
  proof (cases "case map_of (distances st) v of None \<Rightarrow> True | Some d \<Rightarrow> du + c < d")
    case True
    from relax1_improved [OF wf Cons.prems(2) e True] show ?thesis by simp
  next
    case False
    from relax1_unchanged [OF Cons.prems(2) False] show ?thesis by (simp add: progress_refl)
  qed
  have es': "\<And>v j. (v, j) \<in> set es \<Longrightarrow> \<exists>c. j = JNum c \<and> edge db u v c"
    using Cons.prems(1) by simp
  from Cons.IH [OF es', of "insert (v, c) S" ?st1] step obtain st' where
    r: "relax self nbrs u du es ?st1 = Inr st'" and
    i: "inv_mid self nbrs db u du (insert (v, c) S \<union> {(v, c). (v, JNum c) \<in> set es}) st'" and
    p: "progress (nodes self db) ?st1 st'"
    by blast
  have s: "insert (v, c) S \<union> {(v, c). (v, JNum c) \<in> set es} =
           S \<union> {(v', c'). (v', JNum c') \<in> set (x # es)}"
    by (auto simp: x j)
  have "relax self nbrs u du (x # es) st = Inr st'"
    unfolding x j by (subst relax_Cons) (rule r)
  moreover have "progress (nodes self db) st st'"
    using step p progress_trans by blast
  ultimately show ?case using i unfolding s by blast
qed

lemma inv_base_pq_subset:
  assumes "inv_base self nbrs db st" and "set q \<subseteq> set (pq st)"
  shows "inv_base self nbrs db (st\<lparr>pq := q\<rparr>)"
proof -
  have f: "distances (st\<lparr>pq := q\<rparr>) = distances st" "first_hops (st\<lparr>pq := q\<rparr>) = first_hops st"
    "pq (st\<lparr>pq := q\<rparr>) = q" by simp_all
  from assms(1) have t: "inv_t (nodes self db) st" and a: "map_of (distances st) self = Some 0"
    and b: "\<And>d u. (d, u) \<in> set (pq st) \<Longrightarrow> \<exists>du. map_of (distances st) u = Some du \<and> du \<le> d"
    and c: "hops_known self nbrs db \<longrightarrow> inv_hops self nbrs db st"
    unfolding inv_base_def by blast+
  have t': "inv_t (nodes self db) (st\<lparr>pq := q\<rparr>)"
    using t assms(2) unfolding inv_t_def f by blast
  have c': "hops_known self nbrs db \<longrightarrow> inv_hops self nbrs db (st\<lparr>pq := q\<rparr>)"
    using c unfolding inv_hops_def f .
  show ?thesis
    unfolding inv_base_def f using t' c' a b assms(2) by blast
qed

lemma dijkstra_step_inv:
  assumes wf: "wf_db db" and inv: "inv_loop self nbrs db st" and ne: "pq st \<noteq> []"
  shows "\<exists>st'. dijkstra_step self nbrs db st = Inr st' \<and> inv_loop self nbrs db st' \<and>
           (meas (nodes self db) st', meas (nodes self db) st)
             \<in> less_than <*lex*> less_than <*lex*> less_than"
proof -
  let ?V = "nodes self db" and ?D = "map_of (distances st)"
  obtain d u where m: "Min (set (pq st)) = (d, u)" by (cases "Min (set (pq st))") auto
  define q where "q = remove1 (d, u) (pq st)"
  define st0 where "st0 = st\<lparr>pq := q\<rparr>"
  have pop: "heappop (pq st) = ((d, u), q)" by (simp add: heappop_def m q_def Let_def)
  have min: "(d, u) \<in> set (pq st)" using Min_in [of "set (pq st)"] ne m by simp
  have "length q = length (pq st) - 1" using min by (simp add: q_def length_remove1)
  moreover have "length (pq st) > 0" using ne by simp
  ultimately have lq: "length q < length (pq st)" by simp
  have sq: "set q \<subseteq> set (pq st)" by (simp add: q_def set_remove1_subset)
  have keep: "(dx, x) \<in> set q" if "(dx, x) \<in> set (pq st)" "(dx, x) \<noteq> (d, u)" for dx x
    using that by (simp add: q_def)
  have f0: "distances st0 = distances st" "first_hops st0 = first_hops st" "pq st0 = q"
    by (simp_all add: st0_def)
  from inv have base: "inv_base self nbrs db st" and se: "settled db {} st"
    by (auto simp: inv_loop_def)
  have base0: "inv_base self nbrs db st0"
    unfolding st0_def by (rule inv_base_pq_subset [OF base sq])
  from base min obtain du where Du: "?D u = Some du" and dule: "du \<le> d"
    by (auto simp: inv_base_def)
  have m0: "m12 ?V st0 = m12 ?V st" by (simp add: m12_def f0)
  have less0: "(meas ?V st0, meas ?V st) \<in> less_than <*lex*> less_than <*lex*> less_than"
    using lq by (simp add: meas_def m0 f0)
  have se_u: "settled db {u} st0"
    unfolding settled_def f0
  proof (intro allI impI)
    fix x dx assume a: "?D x = Some dx \<and> x \<notin> {u}"
    with se have "(dx, x) \<in> set (pq st) \<or> closed db ?D x dx" by (auto simp: settled_def)
    with a keep [of dx x] show "(dx, x) \<in> set q \<or> closed db ?D x dx" by auto
  qed
  show ?thesis
  proof (cases "d > du")
    case True
    have r: "dijkstra_step self nbrs db st = Inr st0"
      using True Du by (simp add: dijkstra_step_def pop st0_def)
    have "settled db {} st0"
      unfolding settled_def f0
    proof (intro allI impI)
      fix x dx assume a: "?D x = Some dx \<and> x \<notin> {}"
      with se have "(dx, x) \<in> set (pq st) \<or> closed db ?D x dx" by (auto simp: settled_def)
      moreover have "(dx, x) \<noteq> (d, u)" using a Du True by auto
      ultimately show "(dx, x) \<in> set q \<or> closed db ?D x dx" using keep [of dx x] by auto
    qed
    with base0 less0 r show ?thesis by (auto simp: inv_loop_def)
  next
    case False
    with dule have dd: "du = d" by simp
    show ?thesis
    proof (cases "map_of db (JStr u)")
      case None
      have r: "dijkstra_step self nbrs db st = Inr st0"
        using False Du None by (simp add: dijkstra_step_def pop st0_def)
      have cl: "closed db ?D u du" using None by (simp add: closed_def edge_def)
      have "settled db {} st0"
        unfolding settled_def f0
      proof (intro allI impI)
        fix x dx assume a: "?D x = Some dx \<and> x \<notin> {}"
        show "(dx, x) \<in> set q \<or> closed db ?D x dx"
        proof (cases "x = u")
          case True
          with a Du cl show ?thesis by simp
        next
          case False
          with a se_u show ?thesis by (auto simp: settled_def f0)
        qed
      qed
      with base0 less0 r show ?thesis by (auto simp: inv_loop_def)
    next
      case (Some j)
      from wf_db_lookup [OF wf Some] obtain es where j: "j = JObj es" and wl: "wf_links (JObj es)"
        by (cases j) (auto simp: wf_links_def)
      have r: "dijkstra_step self nbrs db st = relax self nbrs u d es st0"
        using False Du Some j by (simp add: dijkstra_step_def pop st0_def)
      have es: "\<And>v j. (v, j) \<in> set es \<Longrightarrow> \<exists>c. j = JNum c \<and> edge db u v c"
        using wf_links_edge [OF wl] Some j by (fastforce simp: edge_def)
      have mid: "inv_mid self nbrs db u d {} st0"
        unfolding inv_mid_def using base0 se_u Du dd by (simp add: f0)
      from relax_inv [OF wf es mid] obtain st' where
        r': "relax self nbrs u d es st0 = Inr st'" and
        i: "inv_mid self nbrs db u d ({} \<union> {(v, c). (v, JNum c) \<in> set es}) st'" and
        p: "progress ?V st0 st'" by blast
      from i have base': "inv_base self nbrs db st'" and se': "settled db {u} st'"
        and Du': "map_of (distances st') u = Some d"
        and rel: "\<And>v c. (v, JNum c) \<in> set es \<Longrightarrow>
                    \<exists>dv. map_of (distances st') v = Some dv \<and> dv \<le> d + c"
        by (auto simp: inv_mid_def)
      have cl: "closed db (map_of (distances st')) u d"
        unfolding closed_def using rel Some j by (auto simp: edge_def)
      have "settled db {} st'"
        unfolding settled_def
      proof (intro allI impI)
        fix x dx assume a: "map_of (distances st') x = Some dx \<and> x \<notin> {}"
        show "(dx, x) \<in> set (pq st') \<or> closed db (map_of (distances st')) x dx"
        proof (cases "x = u")
          case True
          with a Du' cl show ?thesis by simp
        next
          case False
          with a se' show ?thesis by (auto simp: settled_def)
        qed
      qed
      with base' have il: "inv_loop self nbrs db st'" by (simp add: inv_loop_def)
      have "(meas ?V st', meas ?V st) \<in> less_than <*lex*> less_than <*lex*> less_than"
      proof (cases "st' = st0")
        case True
        with less0 show ?thesis by simp
      next
        case False
        with p have "fst (m12 ?V st') < fst (m12 ?V st0) \<or>
              (fst (m12 ?V st') = fst (m12 ?V st0) \<and> snd (m12 ?V st') < snd (m12 ?V st0))"
          by (simp add: progress_def)
        then show ?thesis by (auto simp: meas_def m0)
      qed
      with il r r' show ?thesis by simp
    qed
  qed
qed

lemma dijkstra_loop_total:
  assumes wf: "wf_db db"
  shows "inv_loop self nbrs db st \<Longrightarrow>
         \<exists>st'. dijkstra_loop self nbrs db st = Some (Inr st') \<and> inv_loop self nbrs db st' \<and>
               pq st' = []"
proof -
  have wfr: "wf (inv_image (less_than <*lex*> less_than <*lex*> less_than) (meas (nodes self db)))"
    by (intro wf_inv_image wf_lex_prod wf_less_than)
  from wfr show "inv_loop self nbrs db st \<Longrightarrow>
         \<exists>st'. dijkstra_loop self nbrs db st = Some (Inr st') \<and> inv_loop self nbrs db st' \<and>
               pq st' = []"
  proof (induction st rule: wf_induct_rule)
    case (less st)
    show ?case
    proof (cases "pq st = []")
      case True
      with less.prems show ?thesis by (subst dijkstra_loop.simps) simp
    next
      case False
      from dijkstra_step_inv [OF wf less.prems False] obtain st1 where
        s: "dijkstra_step self nbrs db st = Inr st1" and i: "inv_loop self nbrs db st1" and
        m: "(meas (nodes self db) st1, meas (nodes self db) st)
               \<in> less_than <*lex*> less_than <*lex*> less_than" by blast
      from m have "(st1, st) \<in> inv_image (less_than <*lex*> less_than <*lex*> less_than)
          (meas (nodes self db))" by simp
      from less.IH [OF this i] obtain st' where
        "dijkstra_loop self nbrs db st1 = Some (Inr st')" "inv_loop self nbrs db st'" "pq st' = []"
        by blast
      with False s show ?thesis by (subst dijkstra_loop.simps) simp
    qed
  qed
qed

lemma inv_loop_init:
  "inv_loop self nbrs db \<lparr>distances = [(self, 0)], first_hops = [], pq = [(0, self)]\<rparr>"
  unfolding inv_loop_def inv_base_def inv_t_def inv_hops_def settled_def
  by (simp add: nodes_def)

lemma dijkstra_result:
  assumes wf: "wf_db db"
  shows "\<exists>st. dijkstra_loop self nbrs db \<lparr>distances = [(self, 0)], first_hops = [], pq = [(0, self)]\<rparr>
                = Some (Inr st) \<and> inv_loop self nbrs db st \<and> pq st = []"
  using dijkstra_loop_total [OF wf inv_loop_init] .

lemma calculate_forwarding_table_returns:
  assumes "wf_db (ls_db s)"
  shows "\<exists>ft. calculate_forwarding_table s = Some (s\<lparr>forwarding_table := ft\<rparr>, None)"
proof -
  from dijkstra_result [OF assms, of "addr s" "neighbors s"] obtain st where
    "dijkstra_loop (addr s) (neighbors s) (ls_db s)
       \<lparr>distances = [(addr s, 0)], first_hops = [], pq = [(0, addr s)]\<rparr> = Some (Inr st)"
    by blast
  then have "calculate_forwarding_table s = Some (s\<lparr>forwarding_table := first_hops st\<rparr>, None)"
    by (simp add: calculate_forwarding_table_def)
  then show ?thesis by blast
qed

lemma final_reach:
  assumes inv: "inv_loop self nbrs db st" and e: "pq st = []" and w: "walk db self v w"
  shows "\<exists>dv. map_of (distances st) v = Some dv \<and> dv \<le> w"
  using w
proof (induction rule: walk.induct)
  case walk_refl
  from inv show ?case by (simp add: inv_loop_def inv_base_def)
next
  case (walk_step v w x c)
  then obtain dv where dv: "map_of (distances st) v = Some dv" "dv \<le> w" by blast
  with inv e have "closed db (map_of (distances st)) v dv"
    by (auto simp: inv_loop_def settled_def)
  with walk_step.hyps(2) obtain dx where "map_of (distances st) x = Some dx" "dx \<le> dv + c"
    by (auto simp: closed_def)
  with dv show ?case by auto
qed

lemma final_table:
  assumes inv: "inv_loop self nbrs db st" and e: "pq st = []" and hk: "hops_known self nbrs db"
  shows "v \<in> fst ` set (first_hops st) \<longleftrightarrow> v \<noteq> self \<and> (\<exists>w. walk db self v w)"
    and "map_of (first_hops st) v = Some p \<Longrightarrow>
           \<exists>n c c' w. edge db self n c \<and> (p, (n, c')) \<in> set nbrs \<and> walk db n v w \<and>
                      (\<forall>w'. walk db self v w' \<longrightarrow> c + w \<le> w')"
proof -
  from inv hk have
    h1: "\<And>x d. map_of (distances st) x = Some d \<Longrightarrow> x \<noteq> self \<Longrightarrow>
            \<exists>p. map_of (first_hops st) x = Some p \<and> hop db self nbrs p x d"
    and h2: "\<And>x p. map_of (first_hops st) x = Some p \<Longrightarrow>
            x \<noteq> self \<and> map_of (distances st) x \<noteq> None"
    by (auto simp: inv_loop_def inv_base_def inv_hops_def)
  show "v \<in> fst ` set (first_hops st) \<longleftrightarrow> v \<noteq> self \<and> (\<exists>w. walk db self v w)"
  proof
    assume "v \<in> fst ` set (first_hops st)"
    then obtain p where p: "map_of (first_hops st) v = Some p"
      by (cases "map_of (first_hops st) v") (auto simp: map_of_eq_None_iff)
    from h2 [OF p] obtain d where vs: "v \<noteq> self" and d: "map_of (distances st) v = Some d"
      by auto
    from h1 [OF d vs] obtain p' where "hop db self nbrs p' v d" by blast
    from hop_walk [OF this] vs show "v \<noteq> self \<and> (\<exists>w. walk db self v w)" by blast
  next
    assume a: "v \<noteq> self \<and> (\<exists>w. walk db self v w)"
    then obtain w where "walk db self v w" by blast
    from final_reach [OF inv e this] obtain d where "map_of (distances st) v = Some d" by blast
    from h1 [OF this] a obtain p where "map_of (first_hops st) v = Some p" by blast
    then show "v \<in> fst ` set (first_hops st)"
      by (metis map_of_eq_None_iff option.distinct(1))
  qed
  show "\<exists>n c c' w. edge db self n c \<and> (p, (n, c')) \<in> set nbrs \<and> walk db n v w \<and>
                      (\<forall>w'. walk db self v w' \<longrightarrow> c + w \<le> w')"
    if p: "map_of (first_hops st) v = Some p"
  proof -
    from h2 [OF p] obtain d where vs: "v \<noteq> self" and d: "map_of (distances st) v = Some d"
      by auto
    from h1 [OF d vs] p have "hop db self nbrs p v d" by simp
    then obtain n c c' w where 1: "edge db self n c" "(p, (n, c')) \<in> set nbrs" "walk db n v w"
      and dw: "d = c + w" by (auto simp: hop_def)
    have "c + w \<le> w'" if "walk db self v w'" for w'
      using final_reach [OF inv e that] d dw by simp
    with 1 show ?thesis by blast
  qed
qed

text \<open>
  C1, as stated, fails. In \<open>ls_reused\<close> the adjacency list of \<open>A\<close> in \<open>ls_db\<close> holds \<open>B\<close> and
  \<open>C\<close>, so \<open>B\<close> is reachable from \<open>A\<close> in the graph \<open>ls_db\<close> implies, but no port of the link
  table leads to \<open>B\<close>: the table \<open>calculate_forwarding_table\<close> computes has no entry for
  \<open>B\<close>.
\<close>

theorem reachable_without_port:
  "walk (ls_db ls_reused) ''A'' ''B'' 1 \<and> neighbors ls_reused = [(1, (''C'', 1))] \<and>
   calculate_forwarding_table ls_reused =
     Some (ls_reused\<lparr>forwarding_table := [(''C'', 1)]\<rparr>, None)"
proof -
  have db: "ls_db ls_reused = [(JStr ''A'', JObj [(''B'', JNum 1), (''C'', JNum 1)])]"
    by code_simp
  have "edge (ls_db ls_reused) ''A'' ''B'' 1" by (simp add: db edge_def)
  from walk_step [OF walk_refl this] have "walk (ls_db ls_reused) ''A'' ''B'' 1" by simp
  moreover have "neighbors ls_reused = [(1, (''C'', 1))]" by code_simp
  moreover have "calculate_forwarding_table ls_reused =
     Some (ls_reused\<lparr>forwarding_table := [(''C'', 1)]\<rparr>, None)" by code_simp
  ultimately show ?thesis by blast
qed

text \<open>
  C1, amended. When every adjacency list of \<open>ls_db\<close> is a dict with non-negative numbers
  as costs, and every neighbor the own adjacency list names is the endpoint of a port of
  the link table, \<open>calculate_forwarding_table\<close> returns, raises nothing and changes the
  forwarding table only. The keys of the new table are exactly the nodes other than the
  router itself that are reachable from it in the graph \<open>ls_db\<close> implies, and each is
  mapped to a port of the link table that leads to the first hop of a shortest path to
  it: a walk from the router to the node whose cost no other such walk undercuts.
\<close>

theorem forwarding_table_shortest_paths:
  assumes "wf_db (ls_db s)" and "hops_known (addr s) (neighbors s) (ls_db s)"
  shows "\<exists>ft. calculate_forwarding_table s = Some (s\<lparr>forwarding_table := ft\<rparr>, None) \<and>
           (\<forall>v. v \<in> fst ` set ft \<longleftrightarrow> v \<noteq> addr s \<and> (\<exists>w. walk (ls_db s) (addr s) v w)) \<and>
           (\<forall>v p. map_of ft v = Some p \<longrightarrow>
              (\<exists>n c c' w. edge (ls_db s) (addr s) n c \<and> (p, (n, c')) \<in> set (neighbors s) \<and>
                 walk (ls_db s) n v w \<and>
                 (\<forall>w'. walk (ls_db s) (addr s) v w' \<longrightarrow> c + w \<le> w')))"
proof -
  from dijkstra_result [OF assms(1), of "addr s" "neighbors s"] obtain st where
    r: "dijkstra_loop (addr s) (neighbors s) (ls_db s)
       \<lparr>distances = [(addr s, 0)], first_hops = [], pq = [(0, addr s)]\<rparr> = Some (Inr st)"
    and inv: "inv_loop (addr s) (neighbors s) (ls_db s) st" and e: "pq st = []"
    by blast
  from r have c: "calculate_forwarding_table s = Some (s\<lparr>forwarding_table := first_hops st\<rparr>, None)"
    by (simp add: calculate_forwarding_table_def)
  note t = final_table [OF inv e assms(2)]
  show ?thesis
    apply (rule exI [of _ "first_hops st"])
    using c t by blast
qed

theorem forwarding_table_shortest_paths_witness:
  "wf_db (ls_db ls_A) \<and> hops_known (addr ls_A) (neighbors ls_A) (ls_db ls_A) \<and>
   calculate_forwarding_table ls_A =
     Some (ls_A\<lparr>forwarding_table := [(''B'', 1), (''D'', 2), (''C'', 1)]\<rparr>, None) \<and>
   (\<exists>n c c' w. edge (ls_db ls_A) ''A'' n c \<and> (1, (n, c')) \<in> set (neighbors ls_A) \<and>
      walk (ls_db ls_A) n ''C'' w \<and> (\<forall>w'. walk (ls_db ls_A) ''A'' ''C'' w' \<longrightarrow> c + w \<le> w'))"
proof -
  have a: "wf_db (ls_db ls_A)" by code_simp
  have b: "hops_known (addr ls_A) (neighbors ls_A) (ls_db ls_A)" by code_simp
  have c: "calculate_forwarding_table ls_A =
     Some (ls_A\<lparr>forwarding_table := [(''B'', 1), (''D'', 2), (''C'', 1)]\<rparr>, None)" by code_simp
  have d: "addr ls_A = ''A''" by (simp add: ls_A_def)
  from forwarding_table_shortest_paths [OF a b] obtain ft where
    1: "calculate_forwarding_table ls_A = Some (ls_A\<lparr>forwarding_table := ft\<rparr>, None)" and
    2: "\<And>v p. map_of ft v = Some p \<Longrightarrow>
              (\<exists>n c c' w. edge (ls_db ls_A) (addr ls_A) n c \<and> (p, (n, c')) \<in> set (neighbors ls_A) \<and>
                 walk (ls_db ls_A) n v w \<and>
                 (\<forall>w'. walk (ls_db ls_A) (addr ls_A) v w' \<longrightarrow> c + w \<le> w'))"
    by blast
  from 1 c have "forwarding_table (ls_A\<lparr>forwarding_table := ft\<rparr>) =
      forwarding_table (ls_A\<lparr>forwarding_table := [(''B'', 1), (''D'', 2), (''C'', 1)]\<rparr>)"
    by simp
  then have "ft = [(''B'', 1), (''D'', 2), (''C'', 1)]" by simp
  then have "map_of ft ''C'' = Some 1" by simp
  from 2 [OF this] a b c show ?thesis by (simp add: d)
qed

section \<open>A link state record arrives\<close>

lemma wf_db_update: "wf_db db \<Longrightarrow> wf_links j \<Longrightarrow> wf_db (AList.update k j db)"
  by (induction db) (auto simp: wf_db_def)





section \<open>The own adjacency list and the link table\<close>



















end
